theory Spec2Isabelle
  imports Complex_Main
begin

section \<open>Faults of the model\<close>

text \<open>
  The C++ source has no exceptions on the paths modelled here, but it has operations whose
  behaviour the language leaves undefined (an array access outside the allocated plugin
  table, an \<open>int32_t\<close> counter leaving its range, a non-finite \<open>double\<close> converted to an
  integer) and one operation that can block for ever (taking a mutex that is never
  released). Each of them is a value of \<open>fault\<close>; a modelled function returns
  \<open>fault + 'a\<close>, with \<open>Inl\<close> for the fault.
\<close>

datatype fault = ArrayOutOfBounds | IntOverflow | NonFiniteFloat | MutexBlocked

section \<open>The plugin table\<close>

text \<open>
  A \<open>CarlaPlugin*\<close> is an address; \<open>nullptr\<close> is \<open>None\<close>. The only field of a plugin
  object the engine core writes is its id (\<open>setId\<close>), kept in the heap \<open>plugin_ids\<close>.
\<close>

type_synonym plugin_ptr = nat

record EnginePluginData =
  plugin :: "plugin_ptr option"
  peaks :: "real list"

datatype EnginePostAction =
    kEnginePostActionNull
  | kEnginePostActionZeroCount
  | kEnginePostActionRemovePlugin
  | kEnginePostActionSwitchPlugins

text \<open>
  \<open>EngineNextAction\<close>: the field \<open>value\<close> of the source is \<open>na_value\<close> here. The mutex is
  the flag \<open>mutex_locked\<close> (held by some thread); the semaphore is its count, \<open>None\<close> when
  \<open>carla_sem_create\<close> returned \<open>nullptr\<close>.
\<close>

record EngineNextAction =
  opcode :: EnginePostAction
  pluginId :: nat
  na_value :: nat
  mutex_locked :: bool
  needsPost :: bool
  postDone :: bool
  sem :: "nat option"

text \<open>
  The part of \<open>CarlaEngine::ProtectedData\<close> the modelled methods read or write.
  \<open>plugins\<close> is the array allocated by \<open>init\<close> (its length is the capacity,
  \<open>maxPluginNumber\<close>); \<open>pd_bufferSize\<close> and \<open>pd_sampleRate\<close> are the fields
  \<open>bufferSize\<close> and \<open>sampleRate\<close>; \<open>dspLoad\<close> is a \<open>float\<close>, read as a real number.
\<close>

record ProtectedData =
  curPluginCount :: nat
  plugins :: "EnginePluginData list"
  plugin_ids :: "plugin_ptr \<Rightarrow> nat"
  nextAction :: EngineNextAction
  pd_bufferSize :: nat
  pd_sampleRate :: real
  dspLoad :: real

text \<open>\<open>carla_zeroFloats(floats, count)\<close> writes \<open>count\<close> zeros from the start of the buffer.\<close>

definition carla_zeroFloats :: "real list \<Rightarrow> nat \<Rightarrow> real list" where
  "carla_zeroFloats floats count = replicate count 0 @ drop count floats"

text \<open>\<open>plugin->setId(i)\<close>: the plugin object at address \<open>p\<close> stores \<open>i\<close> as its id.\<close>

definition setId :: "plugin_ptr \<Rightarrow> nat \<Rightarrow> ProtectedData \<Rightarrow> ProtectedData" where
  "setId p i d = d\<lparr>plugin_ids := (plugin_ids d)(p := i)\<rparr>"

text \<open>
  The loop of \<open>doPluginRemove\<close> ("move all plugins 1 spot backwards"), from index \<open>i\<close>,
  on the state whose count is already decremented. \<open>CARLA_SAFE_ASSERT_BREAK\<close> leaves the
  loop at a null plugin.
\<close>

function doPluginRemove_loop :: "nat \<Rightarrow> ProtectedData \<Rightarrow> fault + ProtectedData" where
  "doPluginRemove_loop i d =
     (if i < curPluginCount d then
        (if i + 1 < length (plugins d) then
           (case plugin (plugins d ! (i + 1)) of
              None \<Rightarrow> Inr d
            | Some p \<Rightarrow>
                doPluginRemove_loop (i + 1)
                  ((setId p i d)\<lparr>plugins := (plugins d)
                      [i := \<lparr>plugin = Some p,
                             peaks = carla_zeroFloats (peaks (plugins d ! i)) 4\<rparr>]\<rparr>))
         else Inl ArrayOutOfBounds)
      else Inr d)"
  by pat_completeness auto
termination
  by (relation "measure (\<lambda>(i, d). curPluginCount d - i)") (auto simp: setId_def)

declare doPluginRemove_loop.simps [simp del]

definition doPluginRemove :: "ProtectedData \<Rightarrow> nat \<Rightarrow> fault + ProtectedData" where
  "doPluginRemove d pid =
     (if \<not> curPluginCount d > 0 then Inr d
      else if \<not> pid < curPluginCount d then Inr d
      else
        (case doPluginRemove_loop pid (d\<lparr>curPluginCount := curPluginCount d - 1\<rparr>) of
           Inl f \<Rightarrow> Inl f
         | Inr d' \<Rightarrow>
             (let k = curPluginCount d' in
              if k < length (plugins d') then
                Inr (d'\<lparr>plugins := (plugins d')
                      [k := \<lparr>plugin = None,
                             peaks = carla_zeroFloats (peaks (plugins d' ! k)) 4\<rparr>]\<rparr>)
              else Inl ArrayOutOfBounds)))"

definition doPluginsSwitch :: "ProtectedData \<Rightarrow> nat \<Rightarrow> nat \<Rightarrow> fault + ProtectedData" where
  "doPluginsSwitch d idA idB =
     (if \<not> curPluginCount d \<ge> 2 then Inr d
      else if \<not> idA < curPluginCount d then Inr d
      else if \<not> idB < curPluginCount d then Inr d
      else if \<not> idA < length (plugins d) then Inl ArrayOutOfBounds
      else
        (case plugin (plugins d ! idA) of
           None \<Rightarrow> Inr d
         | Some pluginA \<Rightarrow>
             if \<not> idB < length (plugins d) then Inl ArrayOutOfBounds
             else
               (case plugin (plugins d ! idB) of
                  None \<Rightarrow> Inr d
                | Some pluginB \<Rightarrow>
                    (let d1 = setId pluginA idB d;
                         d2 = d1\<lparr>plugins := (plugins d1)
                                 [idA := (plugins d1 ! idA)\<lparr>plugin := Some pluginB\<rparr>]\<rparr>;
                         d3 = setId pluginB idA d2;
                         d4 = d3\<lparr>plugins := (plugins d3)
                                 [idB := (plugins d3 ! idB)\<lparr>plugin := Some pluginA\<rparr>]\<rparr>
                     in Inr d4))))"


section \<open>The deferred action slot\<close>

text \<open>
  \<open>doNextPluginAction\<close>, the consumer side (the build without
  \<open>BUILD_BRIDGE_ALTERNATIVE_ARCH\<close>). \<open>tryLock\<close> fails when the mutex is held; the
  lock is released again before the opcode is applied, so the flag is unchanged on return.
  \<open>carla_sem_post\<close> adds one to the semaphore count. The \<open>switch (opcode)\<close> statement is
  \<open>doNextPluginAction_switch\<close>.
\<close>

definition doNextPluginAction_switch ::
  "EnginePostAction \<Rightarrow> nat \<Rightarrow> nat \<Rightarrow> ProtectedData \<Rightarrow> fault + ProtectedData" where
  "doNextPluginAction_switch opc pid v d =
     (case opc of
        kEnginePostActionNull \<Rightarrow> Inr d
      | kEnginePostActionZeroCount \<Rightarrow> Inr (d\<lparr>curPluginCount := 0\<rparr>)
      | kEnginePostActionRemovePlugin \<Rightarrow> doPluginRemove d pid
      | kEnginePostActionSwitchPlugins \<Rightarrow> doPluginsSwitch d pid v)"

definition doNextPluginAction :: "ProtectedData \<Rightarrow> fault + ProtectedData" where
  "doNextPluginAction d =
     (if mutex_locked (nextAction d) then Inr d
      else
        (let opc = opcode (nextAction d);
             np = needsPost (nextAction d);
             pid = pluginId (nextAction d);
             v = na_value (nextAction d);
             d1 = d\<lparr>nextAction := (nextAction d)
                    \<lparr>opcode := kEnginePostActionNull, pluginId := 0, na_value := 0,
                     needsPost := False\<rparr>\<rparr>
         in case doNextPluginAction_switch opc pid v d1 of
              Inl f \<Rightarrow> Inl f
            | Inr d2 \<Rightarrow>
                if np then
                  Inr (d2\<lparr>nextAction := (nextAction d2)
                         \<lparr>sem := map_option Suc (sem (nextAction d2)), postDone := True\<rparr>\<rparr>)
                else Inr d2))"

text \<open>
  Modelled from the spec: \<open>CarlaEngine::isRunning\<close> is a virtual method whose
  implementations are not in the sources; the spec calls its result
  \<open>audioThreadIsRunning\<close>. The engine is its protected data and that flag.
\<close>

record CarlaEngine =
  pData :: ProtectedData
  isRunning :: bool

text \<open>
  What the rest of the program does while the constructor of \<open>ScopedActionLock\<close> waits:
  for one 200 ms wait, whether the audio thread ran \<open>doNextPluginAction\<close> in it, and
  what \<open>isRunning\<close> answers after it.
\<close>

record wait_slice =
  audio_cycle :: bool
  running_after :: bool

definition audio_thread :: "wait_slice \<Rightarrow> CarlaEngine \<Rightarrow> fault + CarlaEngine" where
  "audio_thread sl e =
     (if audio_cycle sl then
        (case doNextPluginAction (pData e) of
           Inl f \<Rightarrow> Inl f
         | Inr d \<Rightarrow> Inr (e\<lparr>pData := d\<rparr>))
      else Inr e)"

text \<open>
  The wait loop \<open>for (int i = 10; --i >= 0;)\<close> with \<open>k\<close> iterations left; slice \<open>k\<close> of
  the schedule \<open>env\<close> is what happens during this iteration's wait. The result carries
  \<open>engineStoppedWhileWaiting\<close>. \<open>carla_sem_timedwait\<close> succeeds when the count is
  positive, and takes one from it.
\<close>

fun ScopedActionLock_wait ::
  "nat \<Rightarrow> (nat \<Rightarrow> wait_slice) \<Rightarrow> CarlaEngine \<Rightarrow> fault + (CarlaEngine \<times> bool)" where
  "ScopedActionLock_wait 0 env e = Inr (e, False)"
| "ScopedActionLock_wait (Suc k) env e =
     (case audio_thread (env (Suc k)) e of
        Inl f \<Rightarrow> Inl f
      | Inr e1 \<Rightarrow>
          (case sem (nextAction (pData e1)) of
             Some (Suc n) \<Rightarrow>
               Inr (e1\<lparr>pData := (pData e1)\<lparr>nextAction := (nextAction (pData e1))\<lparr>sem := Some n\<rparr>\<rparr>\<rparr>,
                    False)
           | _ \<Rightarrow>
               (let e2 = e1\<lparr>isRunning := running_after (env (Suc k))\<rparr>
                in if \<not> isRunning e2 then Inr (e2, True)
                   else ScopedActionLock_wait k env e2)))"

text \<open>
  The constructor of \<open>ScopedActionLock\<close>. \<open>CarlaMutexLocker\<close> takes the mutex for a scope
  and cannot proceed while another thread holds it. Slice \<open>0\<close> of the schedule is what the
  audio thread does between the release of the mutex and the first test of \<open>postDone\<close>.
\<close>

definition ScopedActionLock ::
  "CarlaEngine \<Rightarrow> EnginePostAction \<Rightarrow> nat \<Rightarrow> nat \<Rightarrow> (nat \<Rightarrow> wait_slice) \<Rightarrow> fault + CarlaEngine" where
  "ScopedActionLock e action pid v env =
     (if \<not> action \<noteq> kEnginePostActionNull then Inr e
      else if mutex_locked (nextAction (pData e)) then Inl MutexBlocked
      else if \<not> opcode (nextAction (pData e)) = kEnginePostActionNull then Inr e
      else
        (let e1 = e\<lparr>pData := (pData e)\<lparr>nextAction := (nextAction (pData e))
                     \<lparr>opcode := action, pluginId := pid, na_value := v,
                      needsPost := isRunning e, postDone := False\<rparr>\<rparr>\<rparr>
         in if needsPost (nextAction (pData e1)) then
              (case audio_thread (env 0) e1 of
                 Inl f \<Rightarrow> Inl f
               | Inr e2 \<Rightarrow>
                   (case (if \<not> postDone (nextAction (pData e2))
                          then ScopedActionLock_wait 10 env e2 else Inr (e2, False)) of
                      Inl f \<Rightarrow> Inl f
                    | Inr (e3, engineStoppedWhileWaiting) \<Rightarrow>
                        if \<not> postDone (nextAction (pData e3)) then
                          (if mutex_locked (nextAction (pData e3)) then Inl MutexBlocked
                           else if opcode (nextAction (pData e3)) \<noteq> kEnginePostActionNull then
                             (case doNextPluginAction
                                     ((pData e3)\<lparr>nextAction := (nextAction (pData e3))
                                        \<lparr>needsPost := False\<rparr>\<rparr>) of
                                Inl f \<Rightarrow> Inl f
                              | Inr d \<Rightarrow> Inr (e3\<lparr>pData := d\<rparr>))
                           else Inr e3)
                        else Inr e3))
            else
              (case doNextPluginAction (pData e1) of
                 Inl f \<Rightarrow> Inl f
               | Inr d \<Rightarrow> Inr (e1\<lparr>pData := d\<rparr>))))"

section \<open>The buffer-cycle scope\<close>

text \<open>
  \<open>PendingRtEventsRunner\<close>: the member initialiser of \<open>prevTime\<close>, given the clock value
  \<open>now\<close> that \<open>getTimeInMicroseconds\<close> returns, and the destructor, given the clock
  value \<open>newTime\<close> it reads. \<open>float\<close> and \<open>double\<close> values are real numbers here; a
  division by zero, whose IEEE result is an infinity or a NaN, is the fault
  \<open>NonFiniteFloat\<close>.
\<close>

definition PendingRtEventsRunner_prevTime :: "bool \<Rightarrow> int \<Rightarrow> int" where
  "PendingRtEventsRunner_prevTime calcDSPLoad now = (if calcDSPLoad then now else 0)"

definition maxTime :: "ProtectedData \<Rightarrow> real" where
  "maxTime d = real (pd_bufferSize d) / pd_sampleRate d"

text \<open>The new sample, the local \<open>dspLoad\<close> of the destructor.\<close>

definition load_sample :: "ProtectedData \<Rightarrow> int \<Rightarrow> int \<Rightarrow> real" where
  "load_sample d prevTime newTime =
     (let timeDiff = real_of_int (newTime - prevTime) / 1000000
      in timeDiff / maxTime d * 100)"

definition PendingRtEventsRunner_destroy ::
  "ProtectedData \<Rightarrow> int \<Rightarrow> int \<Rightarrow> fault + ProtectedData" where
  "PendingRtEventsRunner_destroy d prevTime newTime =
     (case doNextPluginAction d of
        Inl f \<Rightarrow> Inl f
      | Inr d1 \<Rightarrow>
          if prevTime > 0 then
            (if newTime < prevTime then Inr d1
             else if pd_sampleRate d1 = 0 \<or> pd_bufferSize d1 = 0 then Inl NonFiniteFloat
             else if load_sample d1 prevTime newTime > dspLoad d1
               then Inr (d1\<lparr>dspLoad := min 100 (load_sample d1 prevTime newTime)\<rparr>)
               else Inr (d1\<lparr>dspLoad := dspLoad d1 * ((1 - maxTime d1) + 1 / 10 ^ 12)\<rparr>))
          else Inr d1)"


section \<open>The transport clock\<close>

text \<open>
  In this section \<open>double\<close> and \<open>float\<close> values are real numbers and the arithmetic is
  exact; the section after it writes out the rounding of every operation. The \<open>int32_t\<close>
  counters \<open>bar\<close> and \<open>beat\<close> are integers that must stay in range: a signed overflow, or
  the conversion of a \<open>double\<close> outside the range, is the fault \<open>IntOverflow\<close>. Frame
  counters are \<open>uint64_t\<close> and wrap.
\<close>

text \<open>
  Modelled from the spec: the enum \<open>EngineTransportMode\<close> is declared in a header that
  is not in the sources; the spec names an internal mode, an external transport peer and
  an external sync peer. The source tests for the internal and the JACK mode only.
\<close>

datatype EngineTransportMode =
    ENGINE_TRANSPORT_MODE_INTERNAL
  | ENGINE_TRANSPORT_MODE_JACK
  | ENGINE_TRANSPORT_MODE_BRIDGE

record EngineTimeInfoBBT =
  valid :: bool
  bar :: int
  beat :: int
  bbt_tick :: real
  barStartTick :: real
  bbt_beatsPerBar :: real
  beatType :: real
  ticksPerBeat :: real
  bbt_beatsPerMinute :: real

record EngineTimeInfo =
  playing :: bool
  frame :: nat
  usecs :: nat
  bbt :: EngineTimeInfoBBT

text \<open>
  \<open>EngineInternalTime\<close>. \<open>hylia_enabled\<close> and \<open>hylia_beat\<close> are \<open>hylia.enabled\<close> and
  \<open>hylia.timeInfo.beat\<close>; in a build without \<open>HAVE_HYLIA\<close> the flag is never set. The
  references \<open>timeInfo\<close> and \<open>transportMode\<close> are held by value.
\<close>

record EngineInternalTime =
  beatsPerBar :: real
  beatsPerMinute :: real
  bufferSize :: real
  sampleRate :: real
  tick :: real
  needsReset :: bool
  nextFrame :: nat
  hylia_enabled :: bool
  hylia_beat :: real
  timeInfo :: EngineTimeInfo
  transportMode :: EngineTransportMode

definition kTicksPerBeat :: real where
  "kTicksPerBeat = 1920"

text \<open>
  Modelled from the spec: \<open>carla_isNotZero\<close> is defined in a utility header that is not
  in the sources; the spec says the guard fails "if sampleRate is zero".
\<close>

definition carla_isNotZero :: "real \<Rightarrow> bool" where
  "carla_isNotZero x = (x \<noteq> 0)"

text \<open>\<open>std::fmod\<close>: the remainder of the division truncated towards zero.\<close>

definition trunc :: "real \<Rightarrow> int" where
  "trunc x = (if 0 \<le> x then \<lfloor>x\<rfloor> else \<lceil>x\<rceil>)"

definition fmod :: "real \<Rightarrow> real \<Rightarrow> real" where
  "fmod x y = x - y * of_int (trunc (x / y))"

definition int32_range :: "int \<Rightarrow> bool" where
  "int32_range v = (- (2 ^ 31) \<le> v \<and> v < 2 ^ 31)"

text \<open>\<open>static_cast<int32_t>\<close> of a \<open>double\<close>, and \<open>+\<close> on \<open>int32_t\<close>.\<close>

definition double_to_int32 :: "real \<Rightarrow> fault + int" where
  "double_to_int32 x = (if int32_range (trunc x) then Inr (trunc x) else Inl IntOverflow)"

definition int32_add :: "int \<Rightarrow> int \<Rightarrow> fault + int" where
  "int32_add a b = (if int32_range (a + b) then Inr (a + b) else Inl IntOverflow)"

text \<open>The value \<open>abs_beat\<close> that the reset branch computes.\<close>

definition reset_abs_beat :: "EngineInternalTime \<Rightarrow> real" where
  "reset_abs_beat t =
     (if hylia_enabled t then (if hylia_beat t \<ge> 0 then hylia_beat t else 0)
      else real (frame (timeInfo t)) / (sampleRate t * 60) * beatsPerMinute t)"

text \<open>
  The branch \<open>if (needsReset)\<close> of \<open>fillEngineTimeInfo\<close>; it returns \<open>ticktmp\<close> and the
  state. A zero \<open>beatsPerBar\<close> makes the quotient an infinity or a NaN.
\<close>

definition fillEngineTimeInfo_reset ::
  "EngineInternalTime \<Rightarrow> fault + (real \<times> EngineInternalTime)" where
  "fillEngineTimeInfo_reset t =
     (let t1 = t\<lparr>timeInfo := (timeInfo t)\<lparr>bbt := (bbt (timeInfo t))
                  \<lparr>valid := True, beatType := 4, ticksPerBeat := kTicksPerBeat\<rparr>\<rparr>\<rparr>;
          abs_beat = reset_abs_beat t1;
          abs_tick = abs_beat * kTicksPerBeat;
          t2 = (if hylia_enabled t1 then
                  (if hylia_beat t1 \<ge> 0 then t1
                   else t1\<lparr>timeInfo := (timeInfo t1)\<lparr>playing := False\<rparr>\<rparr>)
                else t1\<lparr>needsReset := False\<rparr>)
      in if beatsPerBar t2 = 0 then Inl NonFiniteFloat
         else
           (let barD = real_of_int \<lfloor>abs_beat / beatsPerBar t2\<rfloor>;
                beatD = real_of_int \<lfloor>fmod abs_beat (beatsPerBar t2)\<rfloor>
            in case double_to_int32 barD of
                 Inl f \<Rightarrow> Inl f
               | Inr barI \<Rightarrow>
                   (case int32_add barI 1 of
                      Inl f \<Rightarrow> Inl f
                    | Inr bar1 \<Rightarrow>
                        (case double_to_int32 beatD of
                           Inl f \<Rightarrow> Inl f
                         | Inr beatI \<Rightarrow>
                             (case int32_add beatI 1 of
                                Inl f \<Rightarrow> Inl f
                              | Inr beat1 \<Rightarrow>
                                  (let bst = ((barD * beatsPerBar t2) + beatD) * kTicksPerBeat
                                   in Inr (abs_tick - bst,
                                           t2\<lparr>timeInfo := (timeInfo t2)\<lparr>bbt := (bbt (timeInfo t2))
                                                \<lparr>bar := bar1, beat := beat1,
                                                 barStartTick := bst\<rparr>\<rparr>\<rparr>)))))))"

text \<open>
  The loop \<open>while (ticktmp >= kTicksPerBeat)\<close> of the branch \<open>else if (timeInfo.playing)\<close>,
  on \<open>ticktmp\<close>, \<open>beatsPerBar\<close> and \<open>timeInfo.bbt\<close>.
\<close>

function fillEngineTimeInfo_carry ::
  "real \<Rightarrow> real \<Rightarrow> EngineTimeInfoBBT \<Rightarrow> fault + (real \<times> EngineTimeInfoBBT)" where
  "fillEngineTimeInfo_carry ticktmp bpb b =
     (if ticktmp \<ge> kTicksPerBeat then
        (case int32_add (beat b) 1 of
           Inl f \<Rightarrow> Inl f
         | Inr beat1 \<Rightarrow>
             if real_of_int beat1 > bpb then
               (case int32_add (bar b) 1 of
                  Inl f \<Rightarrow> Inl f
                | Inr bar1 \<Rightarrow>
                    fillEngineTimeInfo_carry (ticktmp - kTicksPerBeat) bpb
                      (b\<lparr>bar := bar1, beat := 1,
                         barStartTick := barStartTick b + bpb * kTicksPerBeat\<rparr>))
             else fillEngineTimeInfo_carry (ticktmp - kTicksPerBeat) bpb (b\<lparr>beat := beat1\<rparr>))
      else Inr (ticktmp, b))"
  by pat_completeness auto
termination
proof (relation "measure (\<lambda>(ticktmp, bpb, b). nat \<lfloor>ticktmp / 1920\<rfloor>)")
  show "wf (measure (\<lambda>(ticktmp, bpb, b). nat \<lfloor>ticktmp / 1920\<rfloor>))"
    by simp
next
  fix ticktmp bpb :: real and b :: EngineTimeInfoBBT and x2 x2a :: int
  assume "kTicksPerBeat \<le> ticktmp"
  then have "1920 \<le> ticktmp"
    by (simp add: kTicksPerBeat_def)
  then have "\<lfloor>(ticktmp - 1920) / 1920\<rfloor> = \<lfloor>ticktmp / 1920\<rfloor> - 1" and "1 \<le> \<lfloor>ticktmp / 1920\<rfloor>"
    by (simp_all add: diff_divide_distrib le_floor_iff)
  then show "((ticktmp - kTicksPerBeat, bpb,
               b\<lparr>bar := x2a, beat := 1, barStartTick := barStartTick b + bpb * kTicksPerBeat\<rparr>),
              ticktmp, bpb, b) \<in> measure (\<lambda>(ticktmp, bpb, b). nat \<lfloor>ticktmp / 1920\<rfloor>)"
    by (simp add: kTicksPerBeat_def)
next
  fix ticktmp bpb :: real and b :: EngineTimeInfoBBT and x2 :: int
  assume "kTicksPerBeat \<le> ticktmp"
  then have "1920 \<le> ticktmp"
    by (simp add: kTicksPerBeat_def)
  then have "\<lfloor>(ticktmp - 1920) / 1920\<rfloor> = \<lfloor>ticktmp / 1920\<rfloor> - 1" and "1 \<le> \<lfloor>ticktmp / 1920\<rfloor>"
    by (simp_all add: diff_divide_distrib le_floor_iff)
  then show "((ticktmp - kTicksPerBeat, bpb, b\<lparr>beat := x2\<rparr>), ticktmp, bpb, b)
             \<in> measure (\<lambda>(ticktmp, bpb, b). nat \<lfloor>ticktmp / 1920\<rfloor>)"
    by (simp add: kTicksPerBeat_def)
qed

declare fillEngineTimeInfo_carry.simps [simp del]

text \<open>The advance of the tick that the playing branch adds for \<open>newFrames\<close> frames.\<close>

definition tick_advance :: "EngineInternalTime \<Rightarrow> nat \<Rightarrow> real" where
  "tick_advance t newFrames =
     real newFrames * kTicksPerBeat * beatsPerMinute t / (sampleRate t * 60)"

text \<open>The first statement of \<open>fillEngineTimeInfo\<close>: the internal mode publishes the frame.\<close>

definition fillEngineTimeInfo_frame :: "EngineInternalTime \<Rightarrow> EngineInternalTime" where
  "fillEngineTimeInfo_frame t =
     (if transportMode t = ENGINE_TRANSPORT_MODE_INTERNAL
      then t\<lparr>timeInfo := (timeInfo t)\<lparr>usecs := 0, frame := nextFrame t\<rparr>\<rparr>
      else t)"

definition fillEngineTimeInfo :: "EngineInternalTime \<Rightarrow> nat \<Rightarrow> fault + EngineInternalTime" where
  "fillEngineTimeInfo t newFrames =
     (if \<not> carla_isNotZero (sampleRate t) then Inr t
      else if \<not> newFrames > 0 then Inr t
      else
        (let t1 = fillEngineTimeInfo_frame t
         in case (if needsReset t1 then fillEngineTimeInfo_reset t1
                  else if playing (timeInfo t1) then
                    (case fillEngineTimeInfo_carry (tick t1 + tick_advance t1 newFrames)
                            (beatsPerBar t1) (bbt (timeInfo t1)) of
                       Inl f \<Rightarrow> Inl f
                     | Inr (ticktmp, b) \<Rightarrow> Inr (ticktmp, t1\<lparr>timeInfo := (timeInfo t1)\<lparr>bbt := b\<rparr>\<rparr>))
                  else Inr (tick t1, t1)) of
              Inl f \<Rightarrow> Inl f
            | Inr (ticktmp, t2) \<Rightarrow>
                (let t3 = t2\<lparr>timeInfo := (timeInfo t2)\<lparr>bbt := (bbt (timeInfo t2))
                             \<lparr>bbt_beatsPerBar := beatsPerBar t2,
                              bbt_beatsPerMinute := beatsPerMinute t2,
                              bbt_tick := ticktmp\<rparr>\<rparr>,
                            tick := ticktmp\<rparr>
                 in if transportMode t3 = ENGINE_TRANSPORT_MODE_INTERNAL \<and> playing (timeInfo t3)
                    then Inr (t3\<lparr>nextFrame := (nextFrame t3 + newFrames) mod 2 ^ 64\<rparr>)
                    else Inr t3)))"



section \<open>The transport clock in binary64 arithmetic\<close>

text \<open>
  The same clock with the rounding of every \<open>double\<close> operation written out. A
  \<open>double\<close> has 53 significant bits and a \<open>float\<close> 24; the result of an operation is
  the exact result rounded to the nearest such number, a tie going to the even
  significand. The expressions are evaluated operation by operation, in \<open>double\<close>, none
  fused. The exponent is not bounded here: a number above \<open>1.8e308\<close> or below \<open>2.2e-308\<close>
  in magnitude, where a \<open>double\<close> overflows or loses bits, is rounded like all others, so
  the theorems on this clock keep sample rate and tempo in a range where no operation
  gets there (\<open>plain_rates\<close>).
\<close>

definition round_even :: "real \<Rightarrow> int" where
  "round_even x =
     (if x - of_int \<lfloor>x\<rfloor> < 1 / 2 then \<lfloor>x\<rfloor>
      else if 1 / 2 < x - of_int \<lfloor>x\<rfloor> then \<lfloor>x\<rfloor> + 1
      else if even \<lfloor>x\<rfloor> then \<lfloor>x\<rfloor> else \<lfloor>x\<rfloor> + 1)"

text \<open>The distance between neighbouring doubles of the magnitude of \<open>x\<close>.\<close>

definition ulp :: "real \<Rightarrow> real" where
  "ulp x = 2 powi (\<lfloor>log 2 \<bar>x\<bar>\<rfloor> - 52)"

definition binary64 :: "real \<Rightarrow> real" where
  "binary64 x = (if x = 0 then 0 else ulp x * of_int (round_even (x / ulp x)))"

definition binary32 :: "real \<Rightarrow> real" where
  "binary32 x =
     (if x = 0 then 0
      else 2 powi (\<lfloor>log 2 \<bar>x\<bar>\<rfloor> - 23) *
           of_int (round_even (x / 2 powi (\<lfloor>log 2 \<bar>x\<bar>\<rfloor> - 23))))"

text \<open>
  The value \<open>abs_beat\<close> of the reset branch: \<open>static_cast<double>(timeInfo.frame)\<close>,
  divided by \<open>sampleRate * 60.0\<close>, times \<open>beatsPerMinute\<close>.
\<close>

definition reset_abs_beat64 :: "EngineInternalTime \<Rightarrow> real" where
  "reset_abs_beat64 t =
     (if hylia_enabled t then (if hylia_beat t \<ge> 0 then hylia_beat t else 0)
      else binary64 (binary64 (binary64 (real (frame (timeInfo t))) /
                               binary64 (sampleRate t * 60)) * beatsPerMinute t))"

text \<open>
  The branch \<open>if (needsReset)\<close>. \<open>std::floor\<close> and \<open>std::fmod\<close> are exact; the quotient
  \<open>abs_beat / beatsPerBar\<close>, the products, the sum and the difference are rounded.
\<close>

definition fillEngineTimeInfo_reset64 ::
  "EngineInternalTime \<Rightarrow> fault + (real \<times> EngineInternalTime)" where
  "fillEngineTimeInfo_reset64 t =
     (let t1 = t\<lparr>timeInfo := (timeInfo t)\<lparr>bbt := (bbt (timeInfo t))
                  \<lparr>valid := True, beatType := 4, ticksPerBeat := kTicksPerBeat\<rparr>\<rparr>\<rparr>;
          abs_beat = reset_abs_beat64 t1;
          abs_tick = binary64 (abs_beat * kTicksPerBeat);
          t2 = (if hylia_enabled t1 then
                  (if hylia_beat t1 \<ge> 0 then t1
                   else t1\<lparr>timeInfo := (timeInfo t1)\<lparr>playing := False\<rparr>\<rparr>)
                else t1\<lparr>needsReset := False\<rparr>)
      in if beatsPerBar t2 = 0 then Inl NonFiniteFloat
         else
           (let barD = real_of_int \<lfloor>binary64 (abs_beat / beatsPerBar t2)\<rfloor>;
                beatD = real_of_int \<lfloor>fmod abs_beat (beatsPerBar t2)\<rfloor>
            in case double_to_int32 barD of
                 Inl f \<Rightarrow> Inl f
               | Inr barI \<Rightarrow>
                   (case int32_add barI 1 of
                      Inl f \<Rightarrow> Inl f
                    | Inr bar1 \<Rightarrow>
                        (case double_to_int32 beatD of
                           Inl f \<Rightarrow> Inl f
                         | Inr beatI \<Rightarrow>
                             (case int32_add beatI 1 of
                                Inl f \<Rightarrow> Inl f
                              | Inr beat1 \<Rightarrow>
                                  (let bst = binary64 (binary64 (binary64 (barD * beatsPerBar t2)
                                                                   + beatD) * kTicksPerBeat)
                                   in Inr (binary64 (abs_tick - bst),
                                           t2\<lparr>timeInfo := (timeInfo t2)\<lparr>bbt := (bbt (timeInfo t2))
                                                \<lparr>bar := bar1, beat := beat1,
                                                 barStartTick := bst\<rparr>\<rparr>\<rparr>)))))))"

text \<open>
  The loop \<open>while (ticktmp >= kTicksPerBeat)\<close>. A \<open>ticktmp\<close> so large that subtracting
  1920 rounds back to it keeps the loop running for ever: the result is then \<open>None\<close>.
\<close>

partial_function (option) fillEngineTimeInfo_carry64 ::
  "real \<Rightarrow> real \<Rightarrow> EngineTimeInfoBBT \<Rightarrow> (fault + (real \<times> EngineTimeInfoBBT)) option" where
  "fillEngineTimeInfo_carry64 ticktmp bpb b =
     (if ticktmp \<ge> kTicksPerBeat then
        (case int32_add (beat b) 1 of
           Inl f \<Rightarrow> Some (Inl f)
         | Inr beat1 \<Rightarrow>
             if real_of_int beat1 > bpb then
               (case int32_add (bar b) 1 of
                  Inl f \<Rightarrow> Some (Inl f)
                | Inr bar1 \<Rightarrow>
                    fillEngineTimeInfo_carry64 (binary64 (ticktmp - kTicksPerBeat)) bpb
                      (b\<lparr>bar := bar1, beat := 1,
                         barStartTick :=
                           binary64 (barStartTick b + binary64 (bpb * kTicksPerBeat))\<rparr>))
             else fillEngineTimeInfo_carry64 (binary64 (ticktmp - kTicksPerBeat)) bpb
                    (b\<lparr>beat := beat1\<rparr>))
      else Some (Inr (ticktmp, b)))"

text \<open>
  The advance \<open>newFrames * kTicksPerBeat * beatsPerMinute / (sampleRate * 60)\<close>, from left
  to right.
\<close>

definition tick_advance64 :: "EngineInternalTime \<Rightarrow> nat \<Rightarrow> real" where
  "tick_advance64 t newFrames =
     binary64 (binary64 (binary64 (real newFrames * kTicksPerBeat) * beatsPerMinute t) /
               binary64 (sampleRate t * 60))"

definition fillEngineTimeInfo64 ::
  "EngineInternalTime \<Rightarrow> nat \<Rightarrow> (fault + EngineInternalTime) option" where
  "fillEngineTimeInfo64 t newFrames =
     (if \<not> carla_isNotZero (sampleRate t) then Some (Inr t)
      else if \<not> newFrames > 0 then Some (Inr t)
      else
        (let t1 = fillEngineTimeInfo_frame t
         in case (if needsReset t1 then Some (fillEngineTimeInfo_reset64 t1)
                  else if playing (timeInfo t1) then
                    (case fillEngineTimeInfo_carry64
                            (binary64 (tick t1 + tick_advance64 t1 newFrames))
                            (beatsPerBar t1) (bbt (timeInfo t1)) of
                       None \<Rightarrow> None
                     | Some (Inl f) \<Rightarrow> Some (Inl f)
                     | Some (Inr (ticktmp, b)) \<Rightarrow>
                         Some (Inr (ticktmp, t1\<lparr>timeInfo := (timeInfo t1)\<lparr>bbt := b\<rparr>\<rparr>)))
                  else Some (Inr (tick t1, t1))) of
              None \<Rightarrow> None
            | Some (Inl f) \<Rightarrow> Some (Inl f)
            | Some (Inr (ticktmp, t2)) \<Rightarrow>
                (let t3 = t2\<lparr>timeInfo := (timeInfo t2)\<lparr>bbt := (bbt (timeInfo t2))
                             \<lparr>bbt_beatsPerBar := binary32 (beatsPerBar t2),
                              bbt_beatsPerMinute := beatsPerMinute t2,
                              bbt_tick := ticktmp\<rparr>\<rparr>,
                            tick := ticktmp\<rparr>
                 in if transportMode t3 = ENGINE_TRANSPORT_MODE_INTERNAL \<and> playing (timeInfo t3)
                    then Some (Inr (t3\<lparr>nextFrame := (nextFrame t3 + newFrames) mod 2 ^ 64\<rparr>))
                    else Some (Inr t3))))"

text \<open>Successive calls, one per frame count of the list.\<close>

fun fillEngineTimeInfo_seq64 ::
  "EngineInternalTime \<Rightarrow> nat list \<Rightarrow> (fault + EngineInternalTime) option" where
  "fillEngineTimeInfo_seq64 t [] = Some (Inr t)"
| "fillEngineTimeInfo_seq64 t (f # fs) =
     (case fillEngineTimeInfo64 t f of
        None \<Rightarrow> None
      | Some (Inl e) \<Rightarrow> Some (Inl e)
      | Some (Inr t') \<Rightarrow> fillEngineTimeInfo_seq64 t' fs)"


section \<open>Well-formed tables\<close>

text \<open>
  The invariant of the plugin table: every occupied slot lies inside the allocated array
  and holds a plugin whose stored id is the slot's index. (Two occupied slots then never
  hold the same plugin.)
\<close>

definition slot_in_sync :: "ProtectedData \<Rightarrow> nat \<Rightarrow> bool" where
  "slot_in_sync d k =
     (k < length (plugins d) \<and>
      (case plugin (plugins d ! k) of None \<Rightarrow> False | Some p \<Rightarrow> plugin_ids d p = k))"

definition table_in_sync :: "ProtectedData \<Rightarrow> bool" where
  "table_in_sync d = list_all (slot_in_sync d) [0..<curPluginCount d]"


section \<open>Example states\<close>

text \<open>
  A table of capacity 4 with three plugins A, B, C at the addresses 10, 11, 12, each
  storing its slot index as its id, and no action pending.
\<close>

definition idle_action :: EngineNextAction where
  "idle_action =
     \<lparr>opcode = kEnginePostActionNull, pluginId = 0, na_value = 0, mutex_locked = False,
      needsPost = False, postDone = False, sem = Some 0\<rparr>"

definition abc_table :: ProtectedData where
  "abc_table =
     \<lparr>curPluginCount = 3,
      plugins = [\<lparr>plugin = Some 10, peaks = [1 / 2, 1 / 4, 0, 0]\<rparr>,
                 \<lparr>plugin = Some 11, peaks = [1 / 8, 1 / 8, 1, 1]\<rparr>,
                 \<lparr>plugin = Some 12, peaks = [0, 0, 1 / 2, 1 / 2]\<rparr>,
                 \<lparr>plugin = None, peaks = [0, 0, 0, 0]\<rparr>],
      plugin_ids = (\<lambda>p. p - 10),
      nextAction = idle_action,
      pd_bufferSize = 512,
      pd_sampleRate = 48000,
      dspLoad = 0\<rparr>"


text \<open>An engine that is not running, holding that table.\<close>

definition stopped_engine :: CarlaEngine where
  "stopped_engine = \<lparr>pData = abc_table, isRunning = False\<rparr>"

text \<open>A running engine on which the removal of plugin 1 is pending.\<close>

definition pending_engine :: CarlaEngine where
  "pending_engine =
     \<lparr>pData = abc_table\<lparr>nextAction := idle_action
                 \<lparr>opcode := kEnginePostActionRemovePlugin, pluginId := 1, needsPost := True\<rparr>\<rparr>,
      isRunning = True\<rparr>"

text \<open>A schedule in which the audio thread never runs and the engine keeps running.\<close>

definition idle_schedule :: "nat \<Rightarrow> wait_slice" where
  "idle_schedule k = \<lparr>audio_cycle = False, running_after = True\<rparr>"


section \<open>Positions and ranges of the transport clock\<close>

text \<open>The musical position a call publishes: bar, beat and tick.\<close>

definition bbt_position :: "EngineInternalTime \<Rightarrow> int \<times> int \<times> real" where
  "bbt_position t =
     (bar (bbt (timeInfo t)), beat (bbt (timeInfo t)), bbt_tick (bbt (timeInfo t)))"



text \<open>
  The clock after construction, \<open>init(512, 48000)\<close> and the start of the transport:
  a reset is pending at frame 0, four beats per bar, 120 beats per minute, internal mode.
\<close>

definition fresh_transport :: EngineInternalTime where
  "fresh_transport =
     \<lparr>beatsPerBar = 4, beatsPerMinute = 120, bufferSize = 512, sampleRate = 48000,
      tick = 0, needsReset = True, nextFrame = 0, hylia_enabled = False, hylia_beat = 0,
      timeInfo = \<lparr>playing = True, frame = 0, usecs = 0,
                  bbt = \<lparr>valid = False, bar = 0, beat = 0, bbt_tick = 0, barStartTick = 0,
                         bbt_beatsPerBar = 0, beatType = 0, ticksPerBeat = 0,
                         bbt_beatsPerMinute = 0\<rparr>\<rparr>,
      transportMode = ENGINE_TRANSPORT_MODE_INTERNAL\<rparr>"

text \<open>The same clock playing in bar 1, beat 4, shortly before the end of the beat.\<close>

definition playing_transport :: EngineInternalTime where
  "playing_transport =
     \<lparr>beatsPerBar = 4, beatsPerMinute = 120, bufferSize = 512, sampleRate = 48000,
      tick = 1900, needsReset = False, nextFrame = 95750, hylia_enabled = False, hylia_beat = 0,
      timeInfo = \<lparr>playing = True, frame = 95238, usecs = 0,
                  bbt = \<lparr>valid = True, bar = 1, beat = 4, bbt_tick = 1900, barStartTick = 5760,
                         bbt_beatsPerBar = 4, beatType = 4, ticksPerBeat = 1920,
                         bbt_beatsPerMinute = 120\<rparr>\<rparr>,
      transportMode = ENGINE_TRANSPORT_MODE_INTERNAL\<rparr>"


text \<open>The fresh clock after \<open>relocate(2 ^ 48)\<close>.\<close>

definition relocated_transport :: EngineInternalTime where
  "relocated_transport =
     fresh_transport\<lparr>nextFrame := 2 ^ 48,
                      timeInfo := (timeInfo fresh_transport)\<lparr>frame := 2 ^ 48\<rparr>\<rparr>"

text \<open>
  The example table in an engine with a buffer of 8192 frames at 8000 Hz, whose load
  estimate stands at 50.
\<close>

definition slow_buffer_table :: ProtectedData where
  "slow_buffer_table = abc_table\<lparr>pd_bufferSize := 8192, pd_sampleRate := 8000, dspLoad := 50\<rparr>"

text \<open>
  Sample rate and tempo between \<open>2 ^ - 300\<close> and \<open>2 ^ 300\<close>. No product or quotient that a
  call computes from them, a frame count and 1920 then leaves the exponent range of a
  \<open>double\<close>, so that rounding to 53 bits is all that happens to it.
\<close>

definition plain_rates :: "EngineInternalTime \<Rightarrow> bool" where
  "plain_rates t =
     (2 powi (- 300) \<le> sampleRate t \<and> sampleRate t \<le> 2 ^ 300 \<and>
      2 powi (- 300) \<le> beatsPerMinute t \<and> beatsPerMinute t \<le> 2 ^ 300)"

text \<open>
  The counters of a call in binary64 arithmetic stay inside \<open>int32_t\<close>: the bar computed
  by a reset, or the bar reached by carrying whole beats while playing.
\<close>

definition counters_fit64 :: "EngineInternalTime \<Rightarrow> nat \<Rightarrow> bool" where
  "counters_fit64 t newFrames =
     (beatsPerBar t < 2 ^ 31 - 1 \<and>
      (if needsReset t then
         \<lfloor>reset_abs_beat64 (fillEngineTimeInfo_frame t) / beatsPerBar t\<rfloor> < 2 ^ 31 - 1
       else if playing (timeInfo t) then
         real_of_int (beat (bbt (timeInfo t))) \<le> beatsPerBar t \<and>
         bar (bbt (timeInfo t)) +
           \<lfloor>binary64 (tick t + tick_advance64 t newFrames) / kTicksPerBeat\<rfloor> < 2 ^ 31
       else True))"

text \<open>The fresh clock after \<open>relocate(132000)\<close>: five and a half beats from the start.\<close>

definition second_bar_transport :: EngineInternalTime where
  "second_bar_transport =
     fresh_transport\<lparr>nextFrame := 132000,
                      timeInfo := (timeInfo fresh_transport)\<lparr>frame := 132000\<rparr>\<rparr>"

text \<open>The same clock with the double nearest to 1.1 as the number of beats per bar.\<close>

definition odd_meter_transport :: EngineInternalTime where
  "odd_meter_transport =
     second_bar_transport\<lparr>beatsPerBar := 2476979795053773 / 2251799813685248\<rparr>"

text \<open>
  The position of the clock as a number of ticks: the whole beats that bar and beat
  count, with \<open>\<lfloor>beatsPerBar\<rfloor>\<close> beats in a bar, and the stored tick.
\<close>

definition beats_done :: "real \<Rightarrow> EngineTimeInfoBBT \<Rightarrow> int" where
  "beats_done bpb b = (bar b - 1) * \<lfloor>bpb\<rfloor> + (beat b - 1)"

definition tick_position :: "EngineInternalTime \<Rightarrow> real" where
  "tick_position t =
     real_of_int (beats_done (beatsPerBar t) (bbt (timeInfo t))) * kTicksPerBeat + tick t"

text \<open>
  The ticks that \<open>newFrames\<close> frames are worth: the advance of the playing branch without
  the rounding of its product and of its quotient.
\<close>

definition ticks_travelled :: "EngineInternalTime \<Rightarrow> nat \<Rightarrow> real" where
  "ticks_travelled t newFrames =
     real newFrames * kTicksPerBeat * beatsPerMinute t / binary64 (sampleRate t * 60)"

text \<open>
  A clock that is playing with no reset pending, with sample rate and tempo positive and
  in the plain range, a number of beats per bar that fits \<open>int32_t\<close>, bar and beat at
  least 1, the beat within the bar, and the tick in \<open>[0, 1920)\<close>.
\<close>

definition running_clock :: "EngineInternalTime \<Rightarrow> bool" where
  "running_clock t =
     (playing (timeInfo t) \<and> \<not> needsReset t \<and> 0 < sampleRate t \<and> 0 < beatsPerMinute t \<and>
      plain_rates t \<and> beatsPerBar t < 2 ^ 31 - 1 \<and>
      1 \<le> bar (bbt (timeInfo t)) \<and> 1 \<le> beat (bbt (timeInfo t)) \<and>
      real_of_int (beat (bbt (timeInfo t))) \<le> beatsPerBar t \<and>
      0 \<le> tick t \<and> tick t < 1920)"

text \<open>
  The fresh clock after its first call: playing at bar 1, beat 1, tick 0, with the next
  frame at 512.
\<close>

definition started_transport :: EngineInternalTime where
  "started_transport =
     \<lparr>beatsPerBar = 4, beatsPerMinute = 120, bufferSize = 512, sampleRate = 48000,
      tick = 0, needsReset = False, nextFrame = 512, hylia_enabled = False, hylia_beat = 0,
      timeInfo = \<lparr>playing = True, frame = 0, usecs = 0,
                  bbt = \<lparr>valid = True, bar = 1, beat = 1, bbt_tick = 0, barStartTick = 0,
                         bbt_beatsPerBar = 4, beatType = 4, ticksPerBeat = 1920,
                         bbt_beatsPerMinute = 120\<rparr>\<rparr>,
      transportMode = ENGINE_TRANSPORT_MODE_INTERNAL\<rparr>"

text \<open>Twenty-five buffers of 960 frames: half a second, one beat at 120 beats per minute.\<close>

definition beat_of_buffers :: "nat list" where
  "beat_of_buffers =
     [960, 960, 960, 960, 960, 960, 960, 960, 960, 960, 960, 960, 960,
      960, 960, 960, 960, 960, 960, 960, 960, 960, 960, 960, 960]"



section \<open>Properties of the plugin table\<close>

lemma table_in_sync_iff:
  "table_in_sync d \<longleftrightarrow> (\<forall>k < curPluginCount d. slot_in_sync d k)"
  by (auto simp: table_in_sync_def list_all_iff)

lemma slot_in_sync_iff:
  "slot_in_sync d k \<longleftrightarrow>
     k < length (plugins d) \<and> (\<exists>p. plugin (plugins d ! k) = Some p \<and> plugin_ids d p = k)"
  by (auto simp: slot_in_sync_def split: option.splits)

text \<open>
  The loop of \<open>doPluginRemove\<close> on a table whose slots above \<open>i\<close> hold pairwise
  different plugins: slot \<open>j\<close> receives the plugin of slot \<open>j + 1\<close>, which stores \<open>j\<close>.
\<close>

lemma doPluginRemove_loop_result:
  assumes "curPluginCount d < length (plugins d)"
    and "\<forall>k. i < k \<and> k \<le> curPluginCount d \<longrightarrow> (\<exists>p. plugin (plugins d ! k) = Some p)"
    and "\<forall>k l. i < k \<and> k \<le> curPluginCount d \<and> i < l \<and> l \<le> curPluginCount d \<and>
           plugin (plugins d ! k) = plugin (plugins d ! l) \<longrightarrow> k = l"
  shows "\<exists>d'. doPluginRemove_loop i d = Inr d' \<and>
           d' = d\<lparr>plugins := plugins d', plugin_ids := plugin_ids d'\<rparr> \<and>
           length (plugins d') = length (plugins d) \<and>
           (\<forall>j. plugins d' ! j =
              (if i \<le> j \<and> j < curPluginCount d
               then \<lparr>plugin = plugin (plugins d ! (j + 1)),
                     peaks = carla_zeroFloats (peaks (plugins d ! j)) 4\<rparr>
               else plugins d ! j)) \<and>
           (\<forall>j p. i \<le> j \<and> j < curPluginCount d \<and> plugin (plugins d ! (j + 1)) = Some p
                  \<longrightarrow> plugin_ids d' p = j) \<and>
           (\<forall>p. (\<forall>j. i \<le> j \<and> j < curPluginCount d \<longrightarrow> plugin (plugins d ! (j + 1)) \<noteq> Some p)
                  \<longrightarrow> plugin_ids d' p = plugin_ids d p)"
  using assms
proof (induction i d rule: doPluginRemove_loop.induct)
  case (1 i d)
  show ?case
  proof (cases "i < curPluginCount d")
    case False
    then show ?thesis
      by (subst doPluginRemove_loop.simps) auto
  next
    case True
    from True "1.prems"(1) have len: "i + 1 < length (plugins d)" by simp
    from True "1.prems"(2) obtain p where p: "plugin (plugins d ! (i + 1)) = Some p"
      by (metis Suc_eq_plus1 Suc_leI lessI)
    let ?d1 = "(setId p i d)\<lparr>plugins := (plugins d)
                      [i := \<lparr>plugin = Some p,
                             peaks = carla_zeroFloats (peaks (plugins d ! i)) 4\<rparr>]\<rparr>"
    have c1: "curPluginCount ?d1 = curPluginCount d" by (simp add: setId_def)
    have l1: "length (plugins ?d1) = length (plugins d)" by (simp add: setId_def)
    have n1: "\<And>k. i < k \<Longrightarrow> plugins ?d1 ! k = plugins d ! k" by (simp add: setId_def)
    have ni: "plugins ?d1 ! i = \<lparr>plugin = Some p,
                             peaks = carla_zeroFloats (peaks (plugins d ! i)) 4\<rparr>"
      using len by (simp add: setId_def)
    have nl: "\<And>k. k < i \<Longrightarrow> plugins ?d1 ! k = plugins d ! k" by (simp add: setId_def)
    have i1: "plugin_ids ?d1 = (plugin_ids d)(p := i)" by (simp add: setId_def)
    have ih: "\<exists>d'. doPluginRemove_loop (i + 1) ?d1 = Inr d' \<and>
           d' = ?d1\<lparr>plugins := plugins d', plugin_ids := plugin_ids d'\<rparr> \<and>
           length (plugins d') = length (plugins ?d1) \<and>
           (\<forall>j. plugins d' ! j =
              (if i + 1 \<le> j \<and> j < curPluginCount ?d1
               then \<lparr>plugin = plugin (plugins ?d1 ! (j + 1)),
                     peaks = carla_zeroFloats (peaks (plugins ?d1 ! j)) 4\<rparr>
               else plugins ?d1 ! j)) \<and>
           (\<forall>j q. i + 1 \<le> j \<and> j < curPluginCount ?d1 \<and> plugin (plugins ?d1 ! (j + 1)) = Some q
                  \<longrightarrow> plugin_ids d' q = j) \<and>
           (\<forall>q. (\<forall>j. i + 1 \<le> j \<and> j < curPluginCount ?d1 \<longrightarrow> plugin (plugins ?d1 ! (j + 1)) \<noteq> Some q)
                  \<longrightarrow> plugin_ids d' q = plugin_ids ?d1 q)"
    proof (rule "1.IH"[OF True len p])
      show "curPluginCount ?d1 < length (plugins ?d1)"
        using "1.prems"(1) by (simp add: setId_def)
      show "\<forall>k. i + 1 < k \<and> k \<le> curPluginCount ?d1 \<longrightarrow> (\<exists>p. plugin (plugins ?d1 ! k) = Some p)"
        using "1.prems"(2) by (simp add: setId_def)
      show "\<forall>k l. i + 1 < k \<and> k \<le> curPluginCount ?d1 \<and> i + 1 < l \<and> l \<le> curPluginCount ?d1 \<and>
           plugin (plugins ?d1 ! k) = plugin (plugins ?d1 ! l) \<longrightarrow> k = l"
        using "1.prems"(3) by (auto simp: setId_def)
    qed
    then obtain d' where d': "doPluginRemove_loop (i + 1) ?d1 = Inr d'"
      and fr: "d' = ?d1\<lparr>plugins := plugins d', plugin_ids := plugin_ids d'\<rparr>"
      and ln: "length (plugins d') = length (plugins ?d1)"
      and sl: "\<And>j. plugins d' ! j =
              (if i + 1 \<le> j \<and> j < curPluginCount ?d1
               then \<lparr>plugin = plugin (plugins ?d1 ! (j + 1)),
                     peaks = carla_zeroFloats (peaks (plugins ?d1 ! j)) 4\<rparr>
               else plugins ?d1 ! j)"
      and ids: "\<And>j q. i + 1 \<le> j \<Longrightarrow> j < curPluginCount ?d1 \<Longrightarrow> plugin (plugins ?d1 ! (j + 1)) = Some q
                  \<Longrightarrow> plugin_ids d' q = j"
      and oth: "\<And>q. (\<forall>j. i + 1 \<le> j \<and> j < curPluginCount ?d1 \<longrightarrow> plugin (plugins ?d1 ! (j + 1)) \<noteq> Some q)
                  \<Longrightarrow> plugin_ids d' q = plugin_ids ?d1 q"
      by blast
    have run: "doPluginRemove_loop i d = Inr d'"
      by (subst doPluginRemove_loop.simps) (use True len p d' in simp)
    have frame: "d' = d\<lparr>plugins := plugins d', plugin_ids := plugin_ids d'\<rparr>"
      by (subst fr) (simp add: setId_def)
    have length: "length (plugins d') = length (plugins d)"
      using ln l1 by simp
    have slots: "plugins d' ! j =
              (if i \<le> j \<and> j < curPluginCount d
               then \<lparr>plugin = plugin (plugins d ! (j + 1)),
                     peaks = carla_zeroFloats (peaks (plugins d ! j)) 4\<rparr>
               else plugins d ! j)" for j
    proof -
      consider "j < i" | "j = i" | "i < j" by linarith
      then show ?thesis
      proof cases
        case 1
        then show ?thesis using sl[of j] nl[of j] by simp
      next
        case 2
        then show ?thesis using sl[of j] ni p True by simp
      next
        case 3
        then show ?thesis using sl[of j] n1[of j] n1[of "j + 1"] c1 by simp
      qed
    qed
    have p_last: "\<forall>j. i + 1 \<le> j \<and> j < curPluginCount ?d1 \<longrightarrow> plugin (plugins ?d1 ! (j + 1)) \<noteq> Some p"
    proof (intro allI impI notI)
      fix j assume j: "i + 1 \<le> j \<and> j < curPluginCount ?d1"
        and e: "plugin (plugins ?d1 ! (j + 1)) = Some p"
      from j have "plugins ?d1 ! (j + 1) = plugins d ! (j + 1)" using n1[of "j + 1"] by simp
      with e p have "plugin (plugins d ! (j + 1)) = plugin (plugins d ! (i + 1))" by simp
      moreover from j c1 have "i < j + 1" "j + 1 \<le> curPluginCount d" "i < i + 1"
        "i + 1 \<le> curPluginCount d" by simp_all
      ultimately have "j + 1 = i + 1" using "1.prems"(3) by blast
      with j show False by simp
    qed
    have moved: "plugin_ids d' q = j"
      if "i \<le> j" "j < curPluginCount d" "plugin (plugins d ! (j + 1)) = Some q" for j q
    proof (cases "j = i")
      case True
      with that p have "q = p" by simp
      then show ?thesis using oth[OF p_last] i1 True by simp
    next
      case False
      with that have "i + 1 \<le> j" by simp
      moreover have "plugin (plugins ?d1 ! (j + 1)) = Some q"
        using that n1[of "j + 1"] by simp
      ultimately show ?thesis using ids[of j q] that c1 by simp
    qed
    have others: "plugin_ids d' q = plugin_ids d q"
      if "\<forall>j. i \<le> j \<and> j < curPluginCount d \<longrightarrow> plugin (plugins d ! (j + 1)) \<noteq> Some q" for q
    proof -
      have "q \<noteq> p" using that p True by auto
      moreover have "\<forall>j. i + 1 \<le> j \<and> j < curPluginCount ?d1 \<longrightarrow> plugin (plugins ?d1 ! (j + 1)) \<noteq> Some q"
        using that n1 c1 by auto
      ultimately show ?thesis using oth[of q] i1 by simp
    qed
    show ?thesis
      using run frame length slots moved others by blast
  qed
qed

lemma take4_zeroFloats: "take 4 (carla_zeroFloats xs 4) = [0, 0, 0, 0]"
  by (simp add: carla_zeroFloats_def numeral_eq_Suc)

lemma table_in_sync_distinct:
  assumes "table_in_sync d" "k < curPluginCount d" "l < curPluginCount d"
    and "plugin (plugins d ! k) = plugin (plugins d ! l)"
  shows "k = l"
  using assms unfolding table_in_sync_iff slot_in_sync_iff by (metis option.inject)

lemma abc_sync: "table_in_sync abc_table"
  by (simp add: table_in_sync_def slot_in_sync_def abc_table_def upt_rec)

text \<open>
  C1. Removing the plugin at index \<open>i\<close> from a table with \<open>n\<close> occupied slots
  (\<open>i < n \<le> capacity\<close>, every occupied slot holding a plugin) returns with \<open>n - 1\<close>
  occupied slots; slot \<open>n - 1\<close> is cleared (null plugin, its four peak meters zero); every
  plugin that stood at an index \<open>j > i\<close> stands at \<open>j - 1\<close> and stores \<open>j - 1\<close> as its id,
  one less than before; the slots below \<open>i\<close> are unchanged. The table is one that satisfies
  the invariant of the data model, a plugin's stored id equals its slot, which the
  "decremented by exactly one" of the claim presupposes; the operation re-establishes it.
\<close>

theorem doPluginRemove_compacts:
  assumes sync: "table_in_sync d" and i: "i < curPluginCount d"
  shows "\<exists>d'. doPluginRemove d i = Inr d' \<and>
           curPluginCount d' = curPluginCount d - 1 \<and>
           curPluginCount d \<le> length (plugins d) \<and>
           length (plugins d') = length (plugins d) \<and>
           plugin (plugins d' ! (curPluginCount d - 1)) = None \<and>
           take 4 (peaks (plugins d' ! (curPluginCount d - 1))) = [0, 0, 0, 0] \<and>
           (\<forall>j. i < j \<and> j < curPluginCount d \<longrightarrow>
              (\<exists>p. plugin (plugins d ! j) = Some p \<and>
                   plugin (plugins d' ! (j - 1)) = Some p \<and>
                   plugin_ids d' p = j - 1 \<and>
                   plugin_ids d' p = plugin_ids d p - 1)) \<and>
           (\<forall>j. j < i \<longrightarrow> plugins d' ! j = plugins d ! j) \<and>
           table_in_sync d'"
proof -
  let ?n = "curPluginCount d"
  let ?d0 = "d\<lparr>curPluginCount := ?n - 1\<rparr>"
  have inrange: "\<And>k. k < ?n \<Longrightarrow> k < length (plugins d)"
    and occupied: "\<And>k. k < ?n \<Longrightarrow> \<exists>p. plugin (plugins d ! k) = Some p \<and> plugin_ids d p = k"
    using sync unfolding table_in_sync_iff slot_in_sync_iff by blast+
  have cap: "?n \<le> length (plugins d)"
    using inrange[of "?n - 1"] i by simp
  have "\<exists>d'. doPluginRemove_loop i ?d0 = Inr d' \<and>
           d' = ?d0\<lparr>plugins := plugins d', plugin_ids := plugin_ids d'\<rparr> \<and>
           length (plugins d') = length (plugins ?d0) \<and>
           (\<forall>j. plugins d' ! j =
              (if i \<le> j \<and> j < curPluginCount ?d0
               then \<lparr>plugin = plugin (plugins ?d0 ! (j + 1)),
                     peaks = carla_zeroFloats (peaks (plugins ?d0 ! j)) 4\<rparr>
               else plugins ?d0 ! j)) \<and>
           (\<forall>j p. i \<le> j \<and> j < curPluginCount ?d0 \<and> plugin (plugins ?d0 ! (j + 1)) = Some p
                  \<longrightarrow> plugin_ids d' p = j) \<and>
           (\<forall>p. (\<forall>j. i \<le> j \<and> j < curPluginCount ?d0 \<longrightarrow> plugin (plugins ?d0 ! (j + 1)) \<noteq> Some p)
                  \<longrightarrow> plugin_ids d' p = plugin_ids ?d0 p)"
  proof (rule doPluginRemove_loop_result)
    show "curPluginCount ?d0 < length (plugins ?d0)"
      using cap i by simp
    show "\<forall>k. i < k \<and> k \<le> curPluginCount ?d0 \<longrightarrow> (\<exists>p. plugin (plugins ?d0 ! k) = Some p)"
    proof (intro allI impI)
      fix k assume "i < k \<and> k \<le> curPluginCount ?d0"
      then have "k < ?n" using i by auto
      from occupied[OF this] show "\<exists>p. plugin (plugins ?d0 ! k) = Some p" by auto
    qed
    show "\<forall>k l. i < k \<and> k \<le> curPluginCount ?d0 \<and> i < l \<and> l \<le> curPluginCount ?d0 \<and>
           plugin (plugins ?d0 ! k) = plugin (plugins ?d0 ! l) \<longrightarrow> k = l"
    proof (intro allI impI)
      fix k l
      assume a: "i < k \<and> k \<le> curPluginCount ?d0 \<and> i < l \<and> l \<le> curPluginCount ?d0 \<and>
           plugin (plugins ?d0 ! k) = plugin (plugins ?d0 ! l)"
      then have "k < ?n" "l < ?n" "plugin (plugins d ! k) = plugin (plugins d ! l)"
        using i by auto
      then show "k = l" using table_in_sync_distinct[OF sync] by blast
    qed
  qed
  then obtain d1 where run: "doPluginRemove_loop i ?d0 = Inr d1"
    and fr: "d1 = ?d0\<lparr>plugins := plugins d1, plugin_ids := plugin_ids d1\<rparr>"
    and ln0: "length (plugins d1) = length (plugins ?d0)"
    and sl0: "\<forall>j. plugins d1 ! j =
              (if i \<le> j \<and> j < curPluginCount ?d0
               then \<lparr>plugin = plugin (plugins ?d0 ! (j + 1)),
                     peaks = carla_zeroFloats (peaks (plugins ?d0 ! j)) 4\<rparr>
               else plugins ?d0 ! j)"
    and moved0: "\<forall>j p. i \<le> j \<and> j < curPluginCount ?d0 \<and> plugin (plugins ?d0 ! (j + 1)) = Some p
                  \<longrightarrow> plugin_ids d1 p = j"
    and others0: "\<forall>p. (\<forall>j. i \<le> j \<and> j < curPluginCount ?d0 \<longrightarrow> plugin (plugins ?d0 ! (j + 1)) \<noteq> Some p)
                  \<longrightarrow> plugin_ids d1 p = plugin_ids ?d0 p"
    by blast
  have ln: "length (plugins d1) = length (plugins d)"
    using ln0 by simp
  have sl: "plugins d1 ! j =
              (if i \<le> j \<and> j < ?n - 1
               then \<lparr>plugin = plugin (plugins d ! (j + 1)),
                     peaks = carla_zeroFloats (peaks (plugins d ! j)) 4\<rparr>
               else plugins d ! j)" for j
    using sl0[rule_format, of j] by simp
  have moved: "plugin_ids d1 p = j"
    if "i \<le> j" "j < ?n - 1" "plugin (plugins d ! (j + 1)) = Some p" for j p
    using moved0[rule_format, of j p] that by simp
  have others: "plugin_ids d1 p = plugin_ids d p"
    if "\<forall>j. i \<le> j \<and> j < ?n - 1 \<longrightarrow> plugin (plugins d ! (j + 1)) \<noteq> Some p" for p
    using others0[rule_format, of p] that by simp
  have c1: "curPluginCount d1 = ?n - 1"
    by (subst fr) simp
  let ?d2 = "d1\<lparr>plugins := (plugins d1)
                      [?n - 1 := \<lparr>plugin = None,
                             peaks = carla_zeroFloats (peaks (plugins d1 ! (?n - 1))) 4\<rparr>]\<rparr>"
  have last: "?n - 1 < length (plugins d1)"
    using cap i ln by simp
  have res: "doPluginRemove d i = Inr ?d2"
    using i run c1 last by (simp add: doPluginRemove_def Let_def)
  have count: "curPluginCount ?d2 = ?n - 1"
    using c1 by simp
  have len2: "length (plugins ?d2) = length (plugins d)"
    using ln by simp
  have cleared: "plugins ?d2 ! (?n - 1) =
      \<lparr>plugin = None, peaks = carla_zeroFloats (peaks (plugins d1 ! (?n - 1))) 4\<rparr>"
    using last by simp
  have below_last: "\<And>j. j < ?n - 1 \<Longrightarrow> plugins ?d2 ! j = plugins d1 ! j"
    by simp
  have ids2: "plugin_ids ?d2 = plugin_ids d1"
    by simp
  have shifted: "\<exists>p. plugin (plugins d ! j) = Some p \<and>
                   plugin (plugins ?d2 ! (j - 1)) = Some p \<and>
                   plugin_ids ?d2 p = j - 1 \<and>
                   plugin_ids ?d2 p = plugin_ids d p - 1"
    if "i < j" "j < ?n" for j
  proof -
    from occupied[OF that(2)] obtain p where p: "plugin (plugins d ! j) = Some p"
      and idp: "plugin_ids d p = j" by blast
    have j1: "i \<le> j - 1" "j - 1 < ?n - 1" "j - 1 + 1 = j"
      using that by simp_all
    have "plugins ?d2 ! (j - 1) = plugins d1 ! (j - 1)"
      using below_last j1 by blast
    then have "plugin (plugins ?d2 ! (j - 1)) = Some p"
      using sl[of "j - 1"] j1 p by simp
    moreover have "plugin_ids d1 p = j - 1"
      using moved[of "j - 1" p] j1 p by simp
    ultimately show ?thesis
      using p idp ids2 by simp
  qed
  have lower: "plugins ?d2 ! j = plugins d ! j" if "j < i" for j
    using that i sl[of j] below_last[of j] by simp
  have lower_ids: "plugin_ids ?d2 p = plugin_ids d p"
    if "j < i" "plugin (plugins d ! j) = Some p" for j p
  proof -
    have "\<forall>k. i \<le> k \<and> k < ?n - 1 \<longrightarrow> plugin (plugins d ! (k + 1)) \<noteq> Some p"
    proof (intro allI impI notI)
      fix k assume k: "i \<le> k \<and> k < ?n - 1" and e: "plugin (plugins d ! (k + 1)) = Some p"
      then have "k + 1 < ?n" "j < ?n" "plugin (plugins d ! (k + 1)) = plugin (plugins d ! j)"
        using that i by auto
      then have "k + 1 = j" using table_in_sync_distinct[OF sync] by blast
      with k that show False by simp
    qed
    then show ?thesis using others ids2 by simp
  qed
  have sync2: "table_in_sync ?d2"
    unfolding table_in_sync_iff slot_in_sync_iff
  proof (intro allI impI)
    fix k assume "k < curPluginCount ?d2"
    then have k: "k < ?n - 1" using c1 by simp
    then have kr: "k < length (plugins ?d2)" using cap len2 by simp
    show "k < length (plugins ?d2) \<and>
          (\<exists>p. plugin (plugins ?d2 ! k) = Some p \<and> plugin_ids ?d2 p = k)"
    proof (cases "k < i")
      case True
      from k have "k < ?n" by simp
      from occupied[OF this] obtain p where "plugin (plugins d ! k) = Some p" "plugin_ids d p = k"
        by blast
      then show ?thesis using lower[OF True] lower_ids[OF True] kr by auto
    next
      case False
      then have "i < k + 1" "k + 1 < ?n" using k by simp_all
      from shifted[OF this] show ?thesis using kr by auto
    qed
  qed
  have zeroed: "take 4 (peaks (plugins ?d2 ! (?n - 1))) = [0, 0, 0, 0]"
    by (subst cleared) (simp add: take4_zeroFloats)
  have null: "plugin (plugins ?d2 ! (?n - 1)) = None"
    by (subst cleared) simp
  from shifted have shifted': "\<forall>j. i < j \<and> j < ?n \<longrightarrow>
              (\<exists>p. plugin (plugins d ! j) = Some p \<and>
                   plugin (plugins ?d2 ! (j - 1)) = Some p \<and>
                   plugin_ids ?d2 p = j - 1 \<and>
                   plugin_ids ?d2 p = plugin_ids d p - 1)"
    by blast
  from lower have lower': "\<forall>j. j < i \<longrightarrow> plugins ?d2 ! j = plugins d ! j"
    by blast
  show ?thesis
    using res count cap len2 null zeroed shifted' lower' sync2 by blast
qed

text \<open>The scenario of the spec: removing A from the table A, B, C.\<close>

theorem doPluginRemove_compacts_witness:
  "table_in_sync abc_table \<and> 0 < curPluginCount abc_table \<and>
   (\<exists>d'. doPluginRemove abc_table 0 = Inr d' \<and> curPluginCount d' = 2 \<and>
      plugin (plugins d' ! 0) = Some 11 \<and> plugin_ids d' 11 = 0 \<and>
      plugin (plugins d' ! 1) = Some 12 \<and> plugin_ids d' 12 = 1 \<and>
      plugin (plugins d' ! 2) = None \<and> take 4 (peaks (plugins d' ! 2)) = [0, 0, 0, 0])"
proof -
  have h: "table_in_sync abc_table" "0 < curPluginCount abc_table"
    by (simp_all add: abc_sync) (simp add: abc_table_def)
  have c: "curPluginCount abc_table = 3"
    and p1: "plugin (plugins abc_table ! Suc 0) = Some 11"
    and p2: "plugin (plugins abc_table ! 2) = Some 12"
    by (simp_all add: abc_table_def)
  from doPluginRemove_compacts[OF h] obtain d' where r: "doPluginRemove abc_table 0 = Inr d'"
    "curPluginCount d' = curPluginCount abc_table - 1"
    "plugin (plugins d' ! (curPluginCount abc_table - 1)) = None"
    "take 4 (peaks (plugins d' ! (curPluginCount abc_table - 1))) = [0, 0, 0, 0]"
    and mv: "\<And>j. 0 < j \<and> j < curPluginCount abc_table \<Longrightarrow>
              (\<exists>p. plugin (plugins abc_table ! j) = Some p \<and>
                   plugin (plugins d' ! (j - 1)) = Some p \<and>
                   plugin_ids d' p = j - 1 \<and>
                   plugin_ids d' p = plugin_ids abc_table p - 1)"
    by blast
  from mv[of 1] mv[of 2] r show ?thesis
    using h by (auto simp: c p1 p2)
qed

text \<open>
  C6. For two distinct occupied indices \<open>a\<close> and \<open>b\<close> whose slots hold plugins (each
  storing its slot as its id, the invariant of the data model), \<open>doPluginsSwitch\<close>
  exchanges the plugin references of the two slots and makes each plugin store its new
  slot; a second call with the same arguments gives back the original state, stored ids
  included.
\<close>

theorem doPluginsSwitch_exchanges:
  assumes a: "a < curPluginCount d" and b: "b < curPluginCount d" and ab: "a \<noteq> b"
    and sa: "slot_in_sync d a" and sb: "slot_in_sync d b"
  shows "\<exists>d' pa pb. plugin (plugins d ! a) = Some pa \<and> plugin (plugins d ! b) = Some pb \<and>
           doPluginsSwitch d a b = Inr d' \<and>
           curPluginCount d' = curPluginCount d \<and>
           plugin (plugins d' ! a) = Some pb \<and> plugin (plugins d' ! b) = Some pa \<and>
           plugin_ids d' pb = a \<and> plugin_ids d' pa = b \<and>
           slot_in_sync d' a \<and> slot_in_sync d' b \<and>
           doPluginsSwitch d' a b = Inr d"
proof -
  from sa obtain pa where la: "a < length (plugins d)"
    and pa: "plugin (plugins d ! a) = Some pa" and ia: "plugin_ids d pa = a"
    unfolding slot_in_sync_iff by blast
  from sb obtain pb where lb: "b < length (plugins d)"
    and pb: "plugin (plugins d ! b) = Some pb" and ib: "plugin_ids d pb = b"
    unfolding slot_in_sync_iff by blast
  have ne: "pa \<noteq> pb"
    using ia ib ab by auto
  have two: "2 \<le> curPluginCount d"
    using a b ab by simp
  let ?xs = "(plugins d)[a := (plugins d ! a)\<lparr>plugin := Some pb\<rparr>,
                          b := (plugins d ! b)\<lparr>plugin := Some pa\<rparr>]"
  let ?d' = "d\<lparr>plugin_ids := (plugin_ids d)(pa := b, pb := a), plugins := ?xs\<rparr>"
  have first: "doPluginsSwitch d a b = Inr ?d'"
    using a b two la lb pa pb ab by (simp add: doPluginsSwitch_def setId_def Let_def)
  have xa: "?xs ! a = (plugins d ! a)\<lparr>plugin := Some pb\<rparr>"
    using la ab by simp
  have xb: "?xs ! b = (plugins d ! b)\<lparr>plugin := Some pa\<rparr>"
    using lb by simp
  have back_list: "?xs[a := (?xs ! a)\<lparr>plugin := Some pa\<rparr>, b := (?xs ! b)\<lparr>plugin := Some pb\<rparr>]
        = plugins d"
  proof (rule nth_equalityI)
    show "length (?xs[a := (?xs ! a)\<lparr>plugin := Some pa\<rparr>, b := (?xs ! b)\<lparr>plugin := Some pb\<rparr>])
          = length (plugins d)" by simp
  next
    fix k assume "k < length (?xs[a := (?xs ! a)\<lparr>plugin := Some pa\<rparr>, b := (?xs ! b)\<lparr>plugin := Some pb\<rparr>])"
    then have k: "k < length (plugins d)" by simp
    have ea: "(plugins d ! a)\<lparr>plugin := Some pa\<rparr> = plugins d ! a"
      using pa by (cases "plugins d ! a") simp
    have eb: "(plugins d ! b)\<lparr>plugin := Some pb\<rparr> = plugins d ! b"
      using pb by (cases "plugins d ! b") simp
    show "?xs[a := (?xs ! a)\<lparr>plugin := Some pa\<rparr>, b := (?xs ! b)\<lparr>plugin := Some pb\<rparr>] ! k
          = plugins d ! k"
      using k la lb ab ea eb by (simp add: nth_list_update)
  qed
  have back_ids: "(plugin_ids d)(pa := b, pb := a, pb := b, pa := a) = plugin_ids d"
    using ia ib by (auto simp: fun_eq_iff)
  have second: "doPluginsSwitch ?d' a b = Inr d"
    using a b two la lb ab ne xa xb back_list back_ids
    by (simp add: doPluginsSwitch_def setId_def Let_def)
  have "slot_in_sync ?d' a" "slot_in_sync ?d' b"
    unfolding slot_in_sync_iff using la lb xa xb ne by simp_all
  then show ?thesis
    using pa pb first second xa xb ne by (intro exI[of _ ?d'] exI[of _ pa] exI[of _ pb]) simp
qed

theorem doPluginsSwitch_exchanges_witness:
  "0 < curPluginCount abc_table \<and> 2 < curPluginCount abc_table \<and>
   slot_in_sync abc_table 0 \<and> slot_in_sync abc_table 2 \<and>
   (\<exists>d'. doPluginsSwitch abc_table 0 2 = Inr d' \<and>
      plugin (plugins d' ! 0) = Some 12 \<and> plugin (plugins d' ! 2) = Some 10 \<and>
      plugin_ids d' 12 = 0 \<and> plugin_ids d' 10 = 2 \<and>
      doPluginsSwitch d' 0 2 = Inr abc_table)"
proof -
  have h: "0 < curPluginCount abc_table" "2 < curPluginCount abc_table" "(0::nat) \<noteq> 2"
    "slot_in_sync abc_table 0" "slot_in_sync abc_table 2"
    by (simp_all add: abc_table_def slot_in_sync_def)
  from doPluginsSwitch_exchanges[OF h] h show ?thesis
    by (auto simp: abc_table_def)
qed

text \<open>
  C10. With at least two occupied slots and a plugin at the occupied index \<open>a\<close>,
  \<open>doPluginsSwitch a a\<close> is carried out, not rejected: it returns with the same slots
  and the same count, the plugin at \<open>a\<close> stores \<open>a\<close>, no other plugin's id changes, and
  a table whose plugin at \<open>a\<close> already stored \<open>a\<close> is unchanged as a whole.
\<close>

theorem doPluginsSwitch_same_index:
  assumes "2 \<le> curPluginCount d" and "a < curPluginCount d" and "a < length (plugins d)"
    and "plugin (plugins d ! a) = Some p"
  shows "\<exists>d'. doPluginsSwitch d a a = Inr d' \<and>
           curPluginCount d' = curPluginCount d \<and>
           plugins d' = plugins d \<and>
           plugin_ids d' p = a \<and>
           (\<forall>q. q \<noteq> p \<longrightarrow> plugin_ids d' q = plugin_ids d q) \<and>
           (plugin_ids d p = a \<longrightarrow> d' = d)"
proof -
  have e: "(plugins d ! a)\<lparr>plugin := Some p\<rparr> = plugins d ! a"
    using assms(4) by (cases "plugins d ! a") simp
  have l: "(plugins d)[a := plugins d ! a] = plugins d"
    by simp
  have same: "d\<lparr>plugin_ids := (plugin_ids d)(p := a),
             plugins := (plugins d)[a := (plugins d ! a)\<lparr>plugin := Some p\<rparr>]\<rparr>
        = d\<lparr>plugin_ids := (plugin_ids d)(p := a)\<rparr>"
    unfolding e l by simp
  have "doPluginsSwitch d a a = Inr (d\<lparr>plugin_ids := (plugin_ids d)(p := a)\<rparr>)"
    using assms by (simp add: doPluginsSwitch_def setId_def Let_def same)
  moreover have "plugin_ids d p = a \<Longrightarrow> (plugin_ids d)(p := a) = plugin_ids d"
    by auto
  ultimately show ?thesis
    by auto
qed

theorem doPluginsSwitch_same_index_witness:
  "2 \<le> curPluginCount abc_table \<and> 1 < curPluginCount abc_table \<and>
   1 < length (plugins abc_table) \<and> plugin (plugins abc_table ! 1) = Some 11 \<and>
   plugin_ids abc_table 11 = 1 \<and> doPluginsSwitch abc_table 1 1 = Inr abc_table"
proof -
  have h: "2 \<le> curPluginCount abc_table" "1 < curPluginCount abc_table"
    "1 < length (plugins abc_table)" "plugin (plugins abc_table ! 1) = Some 11"
    and i: "plugin_ids abc_table 11 = 1"
    by (simp_all add: abc_table_def)
  from doPluginsSwitch_same_index[OF h] i h show ?thesis
    by auto
qed

text \<open>
  C9. A violated precondition makes the table operation a no-op, the whole state being
  returned as it was: \<open>doPluginRemove\<close> on an empty table or with an index that is not
  below the occupied count; \<open>doPluginsSwitch\<close> with fewer than two occupied slots or an
  index that is not below the count; and \<open>doPluginsSwitch\<close> on a table within its capacity
  when one of the two slots holds no plugin.
\<close>

theorem table_precondition_violations_are_noops:
  "(curPluginCount d = 0 \<or> \<not> i < curPluginCount d \<longrightarrow> doPluginRemove d i = Inr d) \<and>
   (curPluginCount d < 2 \<or> \<not> a < curPluginCount d \<or> \<not> b < curPluginCount d
      \<longrightarrow> doPluginsSwitch d a b = Inr d) \<and>
   (curPluginCount d \<le> length (plugins d) \<and> a < curPluginCount d \<and> b < curPluginCount d \<and>
    (plugin (plugins d ! a) = None \<or> plugin (plugins d ! b) = None)
      \<longrightarrow> doPluginsSwitch d a b = Inr d)"
  by (auto simp: doPluginRemove_def doPluginsSwitch_def split: option.splits)

theorem table_precondition_violations_are_noops_witness:
  "\<not> 3 < curPluginCount abc_table \<and> doPluginRemove abc_table 3 = Inr abc_table \<and>
   \<not> 5 < curPluginCount abc_table \<and> doPluginsSwitch abc_table 0 5 = Inr abc_table \<and>
   curPluginCount (abc_table\<lparr>curPluginCount := 4\<rparr>) \<le> length (plugins abc_table) \<and>
   plugin (plugins abc_table ! 3) = None \<and>
   doPluginsSwitch (abc_table\<lparr>curPluginCount := 4\<rparr>) 0 3 = Inr (abc_table\<lparr>curPluginCount := 4\<rparr>)"
  using table_precondition_violations_are_noops[of abc_table 3 0 5]
    table_precondition_violations_are_noops[of "abc_table\<lparr>curPluginCount := 4\<rparr>" 0 0 3]
  by (simp add: abc_table_def)

section \<open>Properties of the deferred action slot\<close>

text \<open>
  On a table whose count does not exceed its capacity no operation leaves the array, and
  none touches the action slot or the load accounting.
\<close>

lemma doPluginRemove_loop_defined:
  assumes "curPluginCount d < length (plugins d)"
  shows "\<exists>d'. doPluginRemove_loop i d = Inr d' \<and>
           curPluginCount d' = curPluginCount d \<and>
           length (plugins d') = length (plugins d) \<and>
           nextAction d' = nextAction d \<and> dspLoad d' = dspLoad d \<and>
           pd_bufferSize d' = pd_bufferSize d \<and> pd_sampleRate d' = pd_sampleRate d"
  using assms
proof (induction i d rule: doPluginRemove_loop.induct)
  case (1 i d)
  show ?case
  proof (cases "i < curPluginCount d")
    case False
    then show ?thesis
      by (subst doPluginRemove_loop.simps) simp
  next
    case True
    with "1.prems" have len: "i + 1 < length (plugins d)" by simp
    show ?thesis
    proof (cases "plugin (plugins d ! (i + 1))")
      case None
      then show ?thesis
        by (subst doPluginRemove_loop.simps) (use True len in simp)
    next
      case (Some p)
      let ?d1 = "(setId p i d)\<lparr>plugins := (plugins d)
                      [i := \<lparr>plugin = Some p,
                             peaks = carla_zeroFloats (peaks (plugins d ! i)) 4\<rparr>]\<rparr>"
      have "curPluginCount ?d1 < length (plugins ?d1)"
        using "1.prems" by (simp add: setId_def)
      from "1.IH"[OF True len Some this]
      obtain d' where "doPluginRemove_loop (i + 1) ?d1 = Inr d'"
        "curPluginCount d' = curPluginCount ?d1"
        "length (plugins d') = length (plugins ?d1)"
        "nextAction d' = nextAction ?d1" "dspLoad d' = dspLoad ?d1"
        "pd_bufferSize d' = pd_bufferSize ?d1" "pd_sampleRate d' = pd_sampleRate ?d1"
        by blast
      then show ?thesis
        by (subst doPluginRemove_loop.simps) (use True len Some in \<open>simp add: setId_def\<close>)
    qed
  qed
qed

lemma doPluginRemove_defined:
  assumes "curPluginCount d \<le> length (plugins d)"
  shows "\<exists>d'. doPluginRemove d pid = Inr d' \<and> nextAction d' = nextAction d \<and>
           dspLoad d' = dspLoad d \<and>
           pd_bufferSize d' = pd_bufferSize d \<and> pd_sampleRate d' = pd_sampleRate d"
proof (cases "0 < curPluginCount d \<and> pid < curPluginCount d")
  case False
  then show ?thesis by (auto simp: doPluginRemove_def)
next
  case True
  let ?d0 = "d\<lparr>curPluginCount := curPluginCount d - 1\<rparr>"
  have "curPluginCount ?d0 < length (plugins ?d0)"
    using assms True by auto
  from doPluginRemove_loop_defined[OF this, of pid]
  obtain d' where "doPluginRemove_loop pid ?d0 = Inr d'"
        "curPluginCount d' = curPluginCount ?d0"
        "length (plugins d') = length (plugins ?d0)"
        "nextAction d' = nextAction ?d0" "dspLoad d' = dspLoad ?d0"
        "pd_bufferSize d' = pd_bufferSize ?d0" "pd_sampleRate d' = pd_sampleRate ?d0"
    by blast
  moreover have "0 < curPluginCount d" "pid < curPluginCount d"
    "curPluginCount d - 1 < length (plugins d)"
    using True assms by auto
  ultimately show ?thesis
    by (simp add: doPluginRemove_def Let_def)
qed

lemma doPluginsSwitch_defined:
  assumes "curPluginCount d \<le> length (plugins d)"
  shows "\<exists>d'. doPluginsSwitch d a b = Inr d' \<and> nextAction d' = nextAction d \<and>
           dspLoad d' = dspLoad d \<and>
           pd_bufferSize d' = pd_bufferSize d \<and> pd_sampleRate d' = pd_sampleRate d"
  using assms
  by (auto simp: doPluginsSwitch_def setId_def Let_def split: option.splits)

lemma doNextPluginAction_switch_defined:
  assumes "curPluginCount d \<le> length (plugins d)"
  shows "\<exists>d'. doNextPluginAction_switch opc pid v d = Inr d' \<and> nextAction d' = nextAction d \<and>
           dspLoad d' = dspLoad d \<and>
           pd_bufferSize d' = pd_bufferSize d \<and> pd_sampleRate d' = pd_sampleRate d"
  using doPluginRemove_defined[OF assms] doPluginsSwitch_defined[OF assms]
  by (cases opc) (simp_all add: doNextPluginAction_switch_def)

lemma doNextPluginAction_defined:
  assumes "curPluginCount d \<le> length (plugins d)"
  shows "\<exists>d'. doNextPluginAction d = Inr d' \<and> dspLoad d' = dspLoad d \<and>
           pd_bufferSize d' = pd_bufferSize d \<and> pd_sampleRate d' = pd_sampleRate d"
proof (cases "mutex_locked (nextAction d)")
  case True
  then show ?thesis by (simp add: doNextPluginAction_def)
next
  case False
  let ?d1 = "d\<lparr>nextAction := (nextAction d)
                    \<lparr>opcode := kEnginePostActionNull, pluginId := 0, na_value := 0,
                     needsPost := False\<rparr>\<rparr>"
  have "curPluginCount ?d1 \<le> length (plugins ?d1)" using assms by simp
  from doNextPluginAction_switch_defined[OF this,
      of "opcode (nextAction d)" "pluginId (nextAction d)" "na_value (nextAction d)"]
  obtain d2 where "doNextPluginAction_switch (opcode (nextAction d)) (pluginId (nextAction d))
        (na_value (nextAction d)) ?d1 = Inr d2" "dspLoad d2 = dspLoad ?d1"
     "pd_bufferSize d2 = pd_bufferSize ?d1" "pd_sampleRate d2 = pd_sampleRate ?d1"
    by blast
  then show ?thesis
    using False by (simp add: doNextPluginAction_def Let_def)
qed

text \<open>
  C3. While an action is pending (the opcode of the slot is not Null), the constructor of
  \<open>ScopedActionLock\<close> rejects a further request: once it holds the mutex it returns with
  the engine exactly as it was, so nothing is applied and the opcode, plugin id, value,
  \<open>needsPost\<close> and \<open>postDone\<close> of the pending request are untouched. It never returns
  with any other state.
\<close>

theorem ScopedActionLock_rejects_while_pending:
  assumes "opcode (nextAction (pData e)) \<noteq> kEnginePostActionNull"
  shows "(\<not> mutex_locked (nextAction (pData e))
            \<longrightarrow> ScopedActionLock e action pid v env = Inr e) \<and>
         (\<forall>e'. ScopedActionLock e action pid v env = Inr e' \<longrightarrow> e' = e)"
  using assms by (auto simp: ScopedActionLock_def)

theorem ScopedActionLock_rejects_while_pending_witness:
  "opcode (nextAction (pData pending_engine)) \<noteq> kEnginePostActionNull \<and>
   \<not> mutex_locked (nextAction (pData pending_engine)) \<and>
   ScopedActionLock pending_engine kEnginePostActionSwitchPlugins 0 2 idle_schedule
     = Inr pending_engine"
  using ScopedActionLock_rejects_while_pending[of pending_engine
      kEnginePostActionSwitchPlugins 0 2 idle_schedule]
  by (simp add: pending_engine_def idle_action_def abc_table_def)



section \<open>Properties of the load estimate\<close>




section \<open>Properties of the transport clock\<close>

lemma trunc_of_int [simp]: "trunc (real_of_int z) = z"
  by (simp add: trunc_def)

lemma floor_sub_beat:
  fixes x :: real
  assumes "1920 \<le> x"
  shows "\<lfloor>(x - 1920) / 1920\<rfloor> = \<lfloor>x / 1920\<rfloor> - 1" and "1 \<le> \<lfloor>x / 1920\<rfloor>"
  using assms by (simp_all add: diff_divide_distrib le_floor_iff)

lemma carry_in_range:
  assumes "0 \<le> x" and "1 \<le> bar b" and "1 \<le> beat b" and "real_of_int (beat b) \<le> bpb"
    and "bpb < 2 ^ 31 - 1" and "bar b + \<lfloor>x / 1920\<rfloor> < 2 ^ 31"
  shows "\<exists>x' b'. fillEngineTimeInfo_carry x bpb b = Inr (x', b') \<and>
           0 \<le> x' \<and> x' < 1920 \<and> 1 \<le> bar b' \<and> 1 \<le> beat b'"
  using assms
proof (induction x bpb b rule: fillEngineTimeInfo_carry.induct)
  case (1 x bpb b)
  show ?case
  proof (cases "kTicksPerBeat \<le> x")
    case False
    then show ?thesis
      using "1.prems" by (subst fillEngineTimeInfo_carry.simps) (simp add: kTicksPerBeat_def)
  next
    case True
    then have x: "1920 \<le> x" by (simp add: kTicksPerBeat_def)
    note fl = floor_sub_beat[OF x]
    have "real_of_int (beat b) < real_of_int (2 ^ 31 - 1)"
      using "1.prems"(4,5) by simp
    then have "beat b < 2 ^ 31 - 1"
      by (simp only: of_int_less_iff)
    then have beat1: "int32_add (beat b) 1 = Inr (beat b + 1)"
      using "1.prems"(3) by (simp add: int32_add_def int32_range_def)
    have "bar b + 1 < 2 ^ 31"
      using "1.prems"(6) fl(2) by linarith
    then have bar1: "int32_add (bar b) 1 = Inr (bar b + 1)"
      using "1.prems"(2) by (simp add: int32_add_def int32_range_def)
    show ?thesis
    proof (cases "real_of_int (beat b + 1) > bpb")
      case over: True
      let ?b = "b\<lparr>bar := bar b + 1, beat := 1,
                  barStartTick := barStartTick b + bpb * kTicksPerBeat\<rparr>"
      have "1 \<le> bpb" using "1.prems"(3,4) by linarith
      then have "\<exists>x' b'. fillEngineTimeInfo_carry (x - kTicksPerBeat) bpb ?b = Inr (x', b') \<and>
           0 \<le> x' \<and> x' < 1920 \<and> 1 \<le> bar b' \<and> 1 \<le> beat b'"
        using "1.prems" x fl
        by (intro "1.IH"(1)[OF True beat1 over bar1]) (simp_all add: kTicksPerBeat_def)
      then show ?thesis
        by (subst fillEngineTimeInfo_carry.simps) (use True beat1 bar1 over in simp)
    next
      case under: False
      let ?b = "b\<lparr>beat := beat b + 1\<rparr>"
      have "\<exists>x' b'. fillEngineTimeInfo_carry (x - kTicksPerBeat) bpb ?b = Inr (x', b') \<and>
           0 \<le> x' \<and> x' < 1920 \<and> 1 \<le> bar b' \<and> 1 \<le> beat b'"
        using "1.prems" x fl under
        by (intro "1.IH"(2)[OF True beat1 under]) (simp_all add: kTicksPerBeat_def)
      then show ?thesis
        by (subst fillEngineTimeInfo_carry.simps) (use True beat1 under in simp)
    qed
  qed
qed

lemma fmod_nonneg:
  assumes "0 \<le> x" and "0 < y"
  shows "fmod x y = x - y * real_of_int \<lfloor>x / y\<rfloor>" and "0 \<le> fmod x y" and "fmod x y < y"
proof -
  have q: "0 \<le> x / y" using assms by simp
  then show eq: "fmod x y = x - y * real_of_int \<lfloor>x / y\<rfloor>"
    by (simp add: fmod_def trunc_def)
  have "y * real_of_int \<lfloor>x / y\<rfloor> \<le> y * (x / y)"
    using assms(2) by (intro mult_left_mono) simp_all
  then have "y * real_of_int \<lfloor>x / y\<rfloor> \<le> x"
    using assms(2) by simp
  then show "0 \<le> fmod x y" using eq by simp
  have "x / y < real_of_int \<lfloor>x / y\<rfloor> + 1" by linarith
  then have "y * (x / y) < y * (real_of_int \<lfloor>x / y\<rfloor> + 1)"
    using assms(2) by (intro mult_strict_left_mono)
  then have "x < y * (real_of_int \<lfloor>x / y\<rfloor> + 1)"
    using assms(2) by simp
  then show "fmod x y < y" using eq by (simp add: algebra_simps)
qed




text \<open>The carry loop, one step at a time, and how it composes.\<close>

lemma carry_below:
  "x < kTicksPerBeat \<Longrightarrow> fillEngineTimeInfo_carry x bpb b = Inr (x, b)"
  by (subst fillEngineTimeInfo_carry.simps) simp

lemma carry_step:
  "kTicksPerBeat \<le> x \<Longrightarrow>
   fillEngineTimeInfo_carry x bpb b =
     (case int32_add (beat b) 1 of
        Inl f \<Rightarrow> Inl f
      | Inr beat1 \<Rightarrow>
          if real_of_int beat1 > bpb then
            (case int32_add (bar b) 1 of
               Inl f \<Rightarrow> Inl f
             | Inr bar1 \<Rightarrow>
                 fillEngineTimeInfo_carry (x - kTicksPerBeat) bpb
                   (b\<lparr>bar := bar1, beat := 1,
                      barStartTick := barStartTick b + bpb * kTicksPerBeat\<rparr>))
          else fillEngineTimeInfo_carry (x - kTicksPerBeat) bpb (b\<lparr>beat := beat1\<rparr>))"
  by (subst fillEngineTimeInfo_carry.simps) simp


section \<open>Properties of the clock in binary64 arithmetic\<close>

subsection \<open>Rounding to the nearest double\<close>

lemma binade_eq:
  assumes "2 powi k \<le> \<bar>x\<bar>" and "\<bar>x\<bar> < 2 powi (k + 1)"
  shows "\<lfloor>log 2 \<bar>x\<bar>\<rfloor> = k"
proof -
  have pos: "0 < \<bar>x\<bar>"
    using assms(1) zero_less_power_int[of "2::real" k] by linarith
  have a: "(2::real) powr real_of_int k = 2 powi k"
    by (simp add: powr_real_of_int')
  have "(2::real) powr real_of_int (k + 1) = 2 powi (k + 1)"
    by (rule powr_real_of_int') simp_all
  then have b: "(2::real) powr (real_of_int k + 1) = 2 powi (k + 1)"
    by simp
  have "(\<lfloor>log 2 \<bar>x\<bar>\<rfloor> = k) =
          (2 powr real_of_int k \<le> \<bar>x\<bar> \<and> \<bar>x\<bar> < 2 powr real_of_int (k
              + 1))"
    by (rule floor_log_eq_powr_iff[OF pos]) simp
  then show ?thesis
    using assms a b by simp
qed

lemma binade_bounds:
  assumes "x \<noteq> 0"
  shows "2 powi \<lfloor>log 2 \<bar>x\<bar>\<rfloor> \<le> \<bar>x\<bar>" and "\<bar>x\<bar> <
      2 powi (\<lfloor>log 2 \<bar>x\<bar>\<rfloor> + 1)"
proof -
  let ?k = "\<lfloor>log 2 \<bar>x\<bar>\<rfloor>"
  have pos: "0 < \<bar>x\<bar>" using assms by simp
  have a: "(2::real) powr real_of_int ?k = 2 powi ?k"
    by (simp add: powr_real_of_int')
  have b: "(2::real) powr real_of_int (?k + 1) = 2 powi (?k + 1)"
    by (rule powr_real_of_int') simp_all
  have "(\<lfloor>log 2 \<bar>x\<bar>\<rfloor> = ?k) =
          (2 powr real_of_int ?k \<le> \<bar>x\<bar> \<and> \<bar>x\<bar> < 2 powr real_of_int
              (?k + 1))"
    by (rule floor_log_eq_powr_iff[OF pos]) simp
  then have c: "2 powr real_of_int ?k \<le> \<bar>x\<bar> \<and> \<bar>x\<bar> < 2 powr
      real_of_int (?k + 1)"
    by simp
  show "2 powi ?k \<le> \<bar>x\<bar>" using c a by simp
  show "\<bar>x\<bar> < 2 powi (?k + 1)" using c b by simp
qed

lemma binade_less:
  assumes "x \<noteq> 0" and "\<bar>x\<bar> < 2 powi n"
  shows "\<lfloor>log 2 \<bar>x\<bar>\<rfloor> < n"
proof (rule ccontr)
  assume "\<not> \<lfloor>log 2 \<bar>x\<bar>\<rfloor> < n"
  then have "n \<le> \<lfloor>log 2 \<bar>x\<bar>\<rfloor>" by simp
  then have "(2::real) powi n \<le> 2 powi \<lfloor>log 2 \<bar>x\<bar>\<rfloor>"
    by (intro power_int_increasing) simp_all
  with binade_bounds(1)[OF assms(1)] assms(2) show False by simp
qed

lemma ulp_pos: "0 < ulp x"
  by (simp add: ulp_def)

lemma two_powi_nonneg:
  assumes "0 \<le> n"
  shows "(2::real) powi n = of_int (2 ^ nat n)"
  using assms by (simp add: power_int_def)

lemma round_even_of_int [simp]: "round_even (of_int k) = k"
  by (simp add: round_even_def)

lemma round_even_ge:
  assumes "of_int j \<le> x"
  shows "j \<le> round_even x"
proof -
  have "j \<le> \<lfloor>x\<rfloor>" using assms by (simp add: le_floor_iff)
  then show ?thesis by (simp add: round_even_def)
qed

lemma round_even_le:
  assumes "x \<le> of_int j"
  shows "round_even x \<le> j"
proof (cases "x = of_int j")
  case True
  then show ?thesis by simp
next
  case False
  then have "x < of_int j" using assms by simp
  then have "\<lfloor>x\<rfloor> < j" by (simp add: floor_less_iff)
  then show ?thesis by (simp add: round_even_def)
qed

lemma round_even_gap:
  assumes "x + 1 / 2 < of_int j"
  shows "round_even x \<le> j - 1"
proof -
  have "x < of_int j" using assms by simp
  then have fl: "\<lfloor>x\<rfloor> < j" by (simp add: floor_less_iff)
  show ?thesis
  proof (cases "\<lfloor>x\<rfloor> = j - 1")
    case True
    then have "x - of_int \<lfloor>x\<rfloor> < 1 / 2" using assms by simp
    then show ?thesis using True by (simp add: round_even_def)
  next
    case False
    then have "\<lfloor>x\<rfloor> + 1 \<le> j - 1" using fl by simp
    then show ?thesis by (simp add: round_even_def)
  qed
qed

lemma round_even_err: "\<bar>of_int (round_even x) - x\<bar> \<le> 1 / 2"
proof -
  have "of_int \<lfloor>x\<rfloor> \<le> x" "x < of_int \<lfloor>x\<rfloor> + 1" by linarith+
  then show ?thesis by (auto simp: round_even_def)
qed

lemma binary64_nonneg:
  assumes "0 \<le> x"
  shows "0 \<le> binary64 x"
proof -
  have "0 \<le> x / ulp x" using assms ulp_pos[of x] by simp
  then have "of_int 0 \<le> x / ulp x" by simp
  then have "0 \<le> round_even (x / ulp x)" by (rule round_even_ge)
  then show ?thesis using ulp_pos[of x] by (simp add: binary64_def)
qed

text \<open>A multiple of a power of two with at most 53 significant bits is a double.\<close>

lemma binary64_exact_strict:
  assumes x: "x = of_int j * 2 powi w" and j: "\<bar>j\<bar> < 2 ^ 53"
  shows "binary64 x = x"
proof (cases "x = 0")
  case True
  then show ?thesis by (simp add: binary64_def)
next
  case False
  define e where "e = \<lfloor>log 2 \<bar>x\<bar>\<rfloor>"
  have u: "ulp x = 2 powi (e - 52)" by (simp add: ulp_def e_def)
  have "\<bar>x\<bar> = of_int \<bar>j\<bar> * 2 powi w" by (simp add: x abs_mult)
  also have "\<dots> < of_int (2 ^ 53) * 2 powi w"
  proof -
    have "real_of_int \<bar>j\<bar> < real_of_int (2 ^ 53)"
      using j by (simp only: of_int_less_iff)
    moreover have "(0::real) < 2 powi w" by simp
    ultimately show ?thesis by (rule mult_strict_right_mono)
  qed
  also have "\<dots> = 2 powi (53 + w)"
    by (simp add: power_int_add)
  finally have "e < 53 + w" unfolding e_def by (intro binade_less[OF False])
  then have n: "0 \<le> w - (e - 52)" by simp
  have "x / ulp x = x / 2 powi (e - 52)"
    by (simp only: u)
  also have "\<dots> = of_int j * (2 powi w / 2 powi (e - 52))"
    by (simp add: x)
  also have "\<dots> = of_int j * 2 powi (w - (e - 52))"
    by (simp add: power_int_diff)
  also have "\<dots> = of_int (j * 2 ^ nat (w - (e - 52)))"
    by (simp add: two_powi_nonneg[OF n])
  finally have "of_int (round_even (x / ulp x)) = x / ulp x"
    by (simp only: round_even_of_int)
  then show ?thesis
    using False ulp_pos[of x] by (simp add: binary64_def)
qed

lemma binary64_exact:
  assumes x: "x = of_int j * 2 powi w" and j: "\<bar>j\<bar> \<le> 2 ^ 53"
  shows "binary64 x = x"
proof (cases "\<bar>j\<bar> < 2 ^ 53")
  case True
  then show ?thesis using x by (rule binary64_exact_strict[rotated])
next
  case False
  then have "\<bar>j\<bar> = 2 ^ 53" using j by simp
  then consider "j = 2 ^ 53" | "j = - (2 ^ 53)" by linarith
  then show ?thesis
  proof cases
    case 1
    then have "x = of_int 1 * 2 powi (53 + w)"
      by (simp add: x power_int_add)
    then show ?thesis by (rule binary64_exact_strict) simp
  next
    case 2
    then have "x = of_int (- 1) * 2 powi (53 + w)"
      by (simp add: x power_int_add)
    then show ?thesis by (rule binary64_exact_strict) simp
  qed
qed

text \<open>The value of a rounding, given the power of two below the number.\<close>

lemma binary64_eval:
  assumes "2 powi k \<le> \<bar>x\<bar>" and "\<bar>x\<bar> < 2 powi (k + 1)"
  shows "binary64 x = 2 powi (k - 52) * of_int (round_even (x / 2 powi (k - 52)))"
proof -
  have "0 < \<bar>x\<bar>"
    using assms(1) zero_less_power_int[of "2::real" k] by linarith
  then have "x \<noteq> 0" by auto
  then show ?thesis
    by (simp add: binary64_def ulp_def binade_eq[OF assms])
qed

text \<open>Below \<open>2 powi (53 + w)\<close> the doubles are multiples of \<open>2 powi
    w\<close>.\<close>

lemma grid_multiple:
  assumes "x \<noteq> 0" and "\<bar>x\<bar> < 2 powi (53 + w)"
  shows "\<exists>m. 0 < m \<and> 2 powi w = of_int m * ulp x"
proof -
  define e where "e = \<lfloor>log 2 \<bar>x\<bar>\<rfloor>"
  have u: "ulp x = 2 powi (e - 52)" by (simp add: ulp_def e_def)
  have "e < 53 + w" unfolding e_def using assms by (rule binade_less)
  then have n: "0 \<le> w - (e - 52)" by simp
  have "(2::real) powi w = 2 powi (w - (e - 52)) * 2 powi (e - 52)"
    by (simp add: power_int_diff)
  also have "\<dots> = of_int (2 ^ nat (w - (e - 52))) * ulp x"
    by (simp only: two_powi_nonneg[OF n] u)
  finally show ?thesis
    by (intro exI[of _ "2 ^ nat (w - (e - 52))"]) simp
qed

lemma binary64_ge_multiple:
  assumes "x \<noteq> 0" and "of_int J * ulp x \<le> x"
  shows "of_int J * ulp x \<le> binary64 x"
proof -
  have "of_int J \<le> x / ulp x"
    using assms(2) ulp_pos[of x] by (simp add: pos_le_divide_eq)
  then have "J \<le> round_even (x / ulp x)" by (rule round_even_ge)
  then have "real_of_int J \<le> of_int (round_even (x / ulp x))" by (simp only: of_int_le_iff)
  then have "real_of_int J * ulp x \<le> of_int (round_even (x / ulp x)) * ulp x"
    using ulp_pos[of x] by (intro mult_right_mono) simp_all
  then show ?thesis using assms(1) by (simp add: binary64_def mult.commute)
qed

lemma binary64_le_multiple:
  assumes "x \<noteq> 0" and "x \<le> of_int J * ulp x"
  shows "binary64 x \<le> of_int J * ulp x"
proof -
  have "x / ulp x \<le> of_int J"
    using assms(2) ulp_pos[of x] by (simp add: pos_divide_le_eq)
  then have "round_even (x / ulp x) \<le> J" by (rule round_even_le)
  then have "real_of_int (round_even (x / ulp x)) \<le> of_int J" by (simp only: of_int_le_iff)
  then have "of_int (round_even (x / ulp x)) * ulp x \<le> real_of_int J * ulp x"
    using ulp_pos[of x] by (intro mult_right_mono) simp_all
  then show ?thesis using assms(1) by (simp add: binary64_def mult.commute)
qed

lemma binary64_below_multiple:
  assumes "x \<noteq> 0" and "x + ulp x / 2 < of_int J * ulp x"
  shows "binary64 x \<le> of_int J * ulp x - ulp x"
proof -
  have "(x + ulp x / 2) / ulp x < of_int J"
    using assms(2) ulp_pos[of x] by (simp only: pos_divide_less_eq)
  moreover have "(x + ulp x / 2) / ulp x = x / ulp x + 1 / 2"
    using ulp_pos[of x] by (simp add: add_divide_distrib)
  ultimately have "x / ulp x + 1 / 2 < of_int J" by simp
  then have "round_even (x / ulp x) \<le> J - 1" by (rule round_even_gap)
  then have "real_of_int (round_even (x / ulp x)) \<le> of_int (J - 1)" by (simp only:
      of_int_le_iff)
  then have "of_int (round_even (x / ulp x)) * ulp x \<le> real_of_int (J - 1) * ulp x"
    using ulp_pos[of x] by (intro mult_right_mono) simp_all
  then show ?thesis using assms(1) by (simp add: binary64_def mult.commute algebra_simps)
qed

text \<open>Rounding does not cross a whole number below \<open>2 ^ 53\<close>.\<close>

lemma binary64_ge_int:
  assumes "0 \<le> x" and "x < 2 ^ 53" and "of_int j \<le> x"
  shows "of_int j \<le> binary64 x"
proof (cases "x = 0")
  case True
  then show ?thesis using assms by (simp add: binary64_def)
next
  case False
  have "\<bar>x\<bar> < 2 powi (53 + 0)" using assms by simp
  from grid_multiple[OF False this] obtain m where m: "0 < m" "1 = of_int m * ulp x"
    by auto
  have "of_int (j * m) * ulp x = of_int j * (of_int m * ulp x)" by simp
  also have "\<dots> = of_int j" by (simp only: m(2)[symmetric] mult_1_right)
  finally have eq: "of_int (j * m) * ulp x = of_int j" .
  have "of_int (j * m) * ulp x \<le> binary64 x"
    by (rule binary64_ge_multiple[OF False]) (simp only: eq assms)
  then show ?thesis by (simp only: eq)
qed

lemma binary64_le_int:
  assumes "0 \<le> x" and "x < 2 ^ 53" and "x \<le> of_int j"
  shows "binary64 x \<le> of_int j"
proof (cases "x = 0")
  case True
  then show ?thesis using assms by (simp add: binary64_def)
next
  case False
  have "\<bar>x\<bar> < 2 powi (53 + 0)" using assms by simp
  from grid_multiple[OF False this] obtain m where m: "0 < m" "1 = of_int m * ulp x"
    by auto
  have "of_int (j * m) * ulp x = of_int j * (of_int m * ulp x)" by simp
  also have "\<dots> = of_int j" by (simp only: m(2)[symmetric] mult_1_right)
  finally have eq: "of_int (j * m) * ulp x = of_int j" .
  have "binary64 x \<le> of_int (j * m) * ulp x"
    by (rule binary64_le_multiple[OF False]) (simp only: eq assms)
  then show ?thesis by (simp only: eq)
qed

lemma binary64_below_int:
  assumes "0 < x" and "x < 2 ^ 53" and "x + ulp x / 2 < of_int j"
  shows "binary64 x < of_int j"
proof -
  have nz: "x \<noteq> 0" using assms by simp
  have "\<bar>x\<bar> < 2 powi (53 + 0)" using assms by simp
  from grid_multiple[OF nz this] obtain m where m: "0 < m" "1 = of_int m * ulp x"
    by auto
  have "of_int (j * m) * ulp x = of_int j * (of_int m * ulp x)" by simp
  also have "\<dots> = of_int j" by (simp only: m(2)[symmetric] mult_1_right)
  finally have eq: "of_int (j * m) * ulp x = of_int j" .
  have "binary64 x \<le> of_int (j * m) * ulp x - ulp x"
    by (rule binary64_below_multiple[OF nz]) (simp only: eq assms)
  then have "binary64 x \<le> of_int j - ulp x" by (simp only: eq)
  then show ?thesis using ulp_pos[of x] by linarith
qed

lemma binary64_of_int:
  assumes "\<bar>z\<bar> \<le> 2 ^ 53"
  shows "binary64 (of_int z) = of_int z"
  using assms by (intro binary64_exact[where j = z and w = 0]) simp_all

text \<open>The significand of a rounded number.\<close>

lemma significand_bound:
  assumes "x \<noteq> 0"
  shows "\<bar>round_even (x / ulp x)\<bar> \<le> 2 ^ 53"
proof -
  define e where "e = \<lfloor>log 2 \<bar>x\<bar>\<rfloor>"
  have u: "ulp x = 2 powi (e - 52)" by (simp add: ulp_def e_def)
  have "\<bar>x\<bar> < 2 powi (e + 1)" unfolding e_def by (rule binade_bounds(2)[OF assms])
  also have "\<dots> = 2 ^ 53 * ulp x" by (simp add: u power_int_diff power_int_add)
  finally have "\<bar>x\<bar> / ulp x < 2 ^ 53" using ulp_pos[of x] by (simp add:
      pos_divide_less_eq)
  moreover have "\<bar>x / ulp x\<bar> = \<bar>x\<bar> / ulp x"
    by (simp only: abs_divide abs_of_pos[OF ulp_pos])
  ultimately have b: "\<bar>x / ulp x\<bar> < 2 ^ 53" by (simp only:)
  have c: "real_of_int (2 ^ 53) = 2 ^ 53" "real_of_int (- (2 ^ 53)) = - (2 ^ 53)" by simp_all
  from b have "x / ulp x \<le> of_int (2 ^ 53)" unfolding c by linarith
  then have up: "round_even (x / ulp x) \<le> 2 ^ 53" by (rule round_even_le)
  from b have "of_int (- (2 ^ 53)) \<le> x / ulp x" unfolding c by linarith
  then have "- (2 ^ 53) \<le> round_even (x / ulp x)" by (rule round_even_ge)
  with up show ?thesis by simp
qed

lemma binary64_idem [simp]: "binary64 (binary64 x) = binary64 x"
proof (cases "x = 0")
  case True
  then show ?thesis by (simp add: binary64_def)
next
  case False
  have "binary64 x = of_int (round_even (x / ulp x)) * 2 powi (\<lfloor>log 2
      \<bar>x\<bar>\<rfloor> - 52)"
    using False by (simp add: binary64_def ulp_def)
  then show ?thesis
    using significand_bound[OF False] by (rule binary64_exact)
qed

text \<open>A double is a whole multiple of its \<open>ulp\<close>.\<close>

lemma double_multiple:
  assumes "binary64 a = a"
  shows "\<exists>k. a = of_int k * ulp a \<and> \<bar>k\<bar> \<le> 2 ^ 53"
proof (cases "a = 0")
  case True
  then show ?thesis by (intro exI[of _ 0]) simp
next
  case False
  have "a = of_int (round_even (a / ulp a)) * ulp a"
    using assms False by (simp add: binary64_def mult.commute)
  then show ?thesis
    using significand_bound[OF False] by blast
qed

text \<open>A double below \<open>2 ^ 53\<close> and a whole number above it are at least an
    \<open>ulp\<close> apart.\<close>

lemma double_int_gap:
  assumes d: "binary64 a = a" and pos: "0 < a" and lt: "a < 2 ^ 53" and N: "a < of_int N"
  shows "ulp a \<le> of_int N - a"
proof -
  have nz: "a \<noteq> 0" using pos by simp
  have "\<bar>a\<bar> < 2 powi (53 + 0)" using pos lt by simp
  from grid_multiple[OF nz this] obtain m where m: "0 < m" "1 = of_int m * ulp a"
    by auto
  from double_multiple[OF d] obtain k where k: "a = of_int k * ulp a" by blast
  have "of_int N = of_int N * (of_int m * ulp a)" by (simp only: m(2)[symmetric] mult_1_right)
  then have Ng: "of_int N = of_int (N * m) * ulp a" by simp
  have "of_int k * ulp a < of_int (N * m) * ulp a"
    using N k Ng by linarith
  then have "real_of_int k < of_int (N * m)"
    using ulp_pos[of a] by (simp only: mult_less_cancel_right_pos)
  then have "k < N * m" by (simp only: of_int_less_iff)
  then have "k + 1 \<le> N * m" by linarith
  then have "real_of_int (k + 1) \<le> of_int (N * m)" by (simp only: of_int_le_iff)
  then have "real_of_int (k + 1) * ulp a \<le> of_int (N * m) * ulp a"
    using ulp_pos[of a] by (intro mult_right_mono) simp_all
  then have "of_int k * ulp a + ulp a \<le> of_int N"
    by (simp only: Ng[symmetric]) (simp add: algebra_simps)
  then show ?thesis using k by linarith
qed

lemma binary64_zero [simp]: "binary64 0 = 0"
  by (simp add: binary64_def)

text \<open>Subtracting a whole number from a larger double below \<open>2 ^ 53\<close> is
    exact.\<close>

lemma binary64_sub_int:
  assumes d: "binary64 a = a" and z: "0 \<le> z" and le: "of_int z \<le> a" and lt: "a < 2 ^ 53"
  shows "binary64 (a - of_int z) = a - of_int z"
proof (cases "a = 0")
  case True
  then have "z = 0" using z le by simp
  then show ?thesis using True by simp
next
  case False
  have "\<bar>a\<bar> < 2 powi (53 + 0)" using z le lt by simp
  from grid_multiple[OF False this] obtain m where m: "0 < m" "1 = of_int m * ulp a"
    by auto
  from double_multiple[OF d] obtain k where k: "a = of_int k * ulp a" "\<bar>k\<bar> \<le> 2 ^ 53"
    by blast
  have "of_int z = of_int z * (of_int m * ulp a)" by (simp only: m(2)[symmetric] mult_1_right)
  then have zg: "of_int z = of_int (z * m) * ulp a" by simp
  have "of_int (z * m) * ulp a \<le> of_int k * ulp a"
    using le k(1) zg by linarith
  then have "real_of_int (z * m) \<le> of_int k"
    using ulp_pos[of a] by (simp only: mult_le_cancel_right_pos)
  then have "z * m \<le> k" by (simp only: of_int_le_iff)
  moreover have "0 \<le> z * m" using z m(1) by simp
  ultimately have b: "\<bar>k - z * m\<bar> \<le> 2 ^ 53" using k(2) by linarith
  have "a - of_int z = of_int k * ulp a - of_int (z * m) * ulp a"
    using k(1) zg by linarith
  also have "\<dots> = of_int (k - z * m) * ulp a"
    by (simp add: algebra_simps)
  finally have "a - of_int z = of_int (k - z * m) * 2 powi (\<lfloor>log 2
      \<bar>a\<bar>\<rfloor> - 52)"
    by (simp only: ulp_def)
  then show ?thesis using b by (rule binary64_exact)
qed

text \<open>
  The rounded quotient of a double by a whole number has the floor of the exact
  quotient.
\<close>

lemma floor_quotient64:
  assumes d: "binary64 a = a" and pos: "0 < a" and lt: "a < 2 ^ 53" and B: "1 \<le> B"
  shows "\<lfloor>binary64 (a / of_int B)\<rfloor> = \<lfloor>a / of_int B\<rfloor>"
proof -
  define q where "q = a / real_of_int B"
  define n where "n = \<lfloor>q\<rfloor>"
  have Bpos: "0 < real_of_int B" "1 \<le> real_of_int B" using B by simp_all
  have qpos: "0 < q" using pos Bpos by (simp add: q_def)
  have "q \<le> a" using pos Bpos by (simp add: q_def divide_le_eq mult_le_cancel_left1)
  then have qlt: "q < 2 ^ 53" using lt by simp
  have a_eq: "a = q * of_int B" using Bpos by (simp add: q_def)
  have lower: "of_int n \<le> binary64 q"
    using qpos qlt by (intro binary64_ge_int) (simp_all add: n_def)
  have "q < of_int (n + 1)" unfolding n_def by linarith
  then have "q * of_int B < of_int (n + 1) * of_int B"
    using Bpos by (simp only: mult_less_cancel_right_pos)
  then have aN: "a < of_int ((n + 1) * B)" by (simp add: a_eq)
  have gap: "ulp a \<le> of_int ((n + 1) * B) - a"
    using d pos lt aN by (rule double_int_gap)
  have qnz: "q \<noteq> 0" and anz: "a \<noteq> 0" using qpos pos by simp_all
  define eq where "eq = \<lfloor>log 2 \<bar>q\<bar>\<rfloor>"
  define ea where "ea = \<lfloor>log 2 \<bar>a\<bar>\<rfloor>"
  have uq: "ulp q = 2 powi eq / 2 ^ 52" and ua: "ulp a = 2 powi ea / 2 ^ 52"
    by (simp_all add: ulp_def eq_def ea_def power_int_diff)
  have "2 powi eq \<le> q" using binade_bounds(1)[OF qnz] qpos by (simp add: eq_def)
  then have "2 powi eq * of_int B \<le> q * of_int B"
    using Bpos by (intro mult_right_mono) simp_all
  also have "\<dots> = a" by (simp add: a_eq)
  also have "a < 2 powi (ea + 1)" using binade_bounds(2)[OF anz] pos by (simp add: ea_def)
  also have "\<dots> = 2 * 2 powi ea" by (simp add: power_int_add)
  finally have "(2::real) powi eq * of_int B < 2 * 2 powi ea" .
  then have "((2::real) powi eq * of_int B) / 2 ^ 52 < (2 * 2 powi ea) / 2 ^ 52"
    by (intro divide_strict_right_mono) simp_all
  moreover have "ulp q * of_int B = (2 powi eq * of_int B) / 2 ^ 52"
    by (simp only: uq times_divide_eq_left)
  moreover have "2 * ulp a = (2 * 2 powi ea) / 2 ^ 52"
    by (simp only: ua times_divide_eq_right)
  ultimately have ulps: "ulp q * of_int B < 2 * ulp a"
    by (simp only:)
  have "(q + ulp q / 2) * of_int B = a + ulp q * of_int B / 2"
    by (simp add: a_eq algebra_simps)
  also have "\<dots> < a + ulp a" using ulps by simp
  also have "\<dots> \<le> of_int ((n + 1) * B)" using gap by simp
  also have "\<dots> = of_int (n + 1) * of_int B" by simp
  finally have "q + ulp q / 2 < of_int (n + 1)"
    using Bpos by (simp only: mult_less_cancel_right_pos)
  then have upper: "binary64 q < of_int (n + 1)"
    using qpos qlt by (intro binary64_below_int)
  have "\<lfloor>binary64 q\<rfloor> = n"
    using lower upper by (intro floor_unique) simp_all
  then show ?thesis by (simp add: q_def n_def)
qed

text \<open>
  The tick of a reset: the rounded tick count of a double number of beats, less the
  ticks of its whole beats.
\<close>

lemma tick_of_beat64:
  assumes d: "binary64 a = a" and pos: "0 < a" and lt: "a < 2 ^ 41"
  shows "binary64 (binary64 (a * 1920) - of_int (\<lfloor>a\<rfloor> * 1920)) =
           binary64 (a * 1920) - of_int (\<lfloor>a\<rfloor> * 1920)"
    and "0 \<le> binary64 (a * 1920) - of_int (\<lfloor>a\<rfloor> * 1920)"
    and "binary64 (a * 1920) - of_int (\<lfloor>a\<rfloor> * 1920) < 1920"
proof -
  define y where "y = a * 1920"
  define m where "m = \<lfloor>a\<rfloor>"
  have ypos: "0 < y" using pos by (simp add: y_def)
  have "y < 2 ^ 41 * 1920" using lt by (simp add: y_def)
  then have y52: "y \<le> real_of_int (2 ^ 52)" by simp
  then have ylt: "y < 2 ^ 53" by simp
  have m0: "0 \<le> m" using pos by (simp add: m_def)
  have "real_of_int m \<le> a" by (simp add: m_def)
  then have my: "of_int (m * 1920) \<le> y" by (simp add: y_def)
  have lower: "of_int (m * 1920) \<le> binary64 y"
    using ypos ylt my by (intro binary64_ge_int) simp_all
  have a53: "a < 2 ^ 53" using lt by simp
  have "a < of_int (m + 1)" unfolding m_def by linarith
  from double_int_gap[OF d pos a53 this] have gap: "ulp a \<le> of_int (m + 1) - a" .
  have ynz: "y \<noteq> 0" and anz: "a \<noteq> 0" using ypos pos by simp_all
  define ey where "ey = \<lfloor>log 2 \<bar>y\<bar>\<rfloor>"
  define ea where "ea = \<lfloor>log 2 \<bar>a\<bar>\<rfloor>"
  have uy: "ulp y = 2 powi ey / 2 ^ 52" and ua: "ulp a = 2 powi ea / 2 ^ 52"
    by (simp_all add: ulp_def ey_def ea_def power_int_diff)
  have "a < 2 powi (ea + 1)" using binade_bounds(2)[OF anz] pos by (simp add: ea_def)
  then have "a * 1920 < 2 powi (ea + 1) * 2048" using pos by linarith
  then have "y < 2 powi (ea + 1) * 2048" by (simp only: y_def)
  also have "\<dots> = 2 powi (ea + 12)" by (simp add: power_int_add)
  finally have "\<bar>y\<bar> < 2 powi (ea + 12)" using ypos by simp
  then have "ey < ea + 12" unfolding ey_def by (intro binade_less[OF ynz])
  then have "ey \<le> ea + 11" by simp
  then have "(2::real) powi ey \<le> 2 powi (ea + 11)"
    by (intro power_int_increasing) simp_all
  also have "\<dots> = 2048 * 2 powi ea" by (simp add: power_int_add)
  finally have ulps: "ulp y \<le> 2048 * ulp a" by (simp add: uy ua divide_le_eq)
  have "y + ulp y / 2 \<le> y + 1024 * ulp a" using ulps by simp
  also have "\<dots> < y + 1920 * ulp a" using ulp_pos[of a] by simp
  also have "\<dots> \<le> y + 1920 * (of_int (m + 1) - a)" using gap by simp
  also have "\<dots> = of_int ((m + 1) * 1920)" by (simp add: y_def algebra_simps)
  finally have "y + ulp y / 2 < of_int ((m + 1) * 1920)" .
  then have upper: "binary64 y < of_int ((m + 1) * 1920)"
    using ypos ylt by (intro binary64_below_int)
  have "binary64 y \<le> real_of_int (2 ^ 52)"
    using ypos ylt y52 by (intro binary64_le_int) simp_all
  then have A53: "binary64 y < 2 ^ 53" by simp
  have "0 \<le> m * 1920" using m0 by simp
  from binary64_sub_int[OF binary64_idem this lower A53]
  show "binary64 (binary64 (a * 1920) - of_int (\<lfloor>a\<rfloor> * 1920)) =
           binary64 (a * 1920) - of_int (\<lfloor>a\<rfloor> * 1920)"
    by (simp only: y_def m_def)
  show "0 \<le> binary64 (a * 1920) - of_int (\<lfloor>a\<rfloor> * 1920)"
    using lower by (simp only: y_def m_def)
  have "real_of_int ((m + 1) * 1920) = of_int (m * 1920) + 1920" by simp
  then show "binary64 (a * 1920) - of_int (\<lfloor>a\<rfloor> * 1920) < 1920"
    using upper by (simp only: y_def m_def)
qed

subsection \<open>The loop and the reset branch\<close>

text \<open>
  On a double below \<open>2 ^ 53\<close> the loop in binary64 arithmetic subtracts exactly: it
  returns what the loop in exact arithmetic returns, but for the rounded
  \<open>barStartTick\<close>.
\<close>

lemma carry64_as_carry:
  assumes "binary64 x = x" and "0 \<le> x" and "x < 2 ^ 53"
  shows "case fillEngineTimeInfo_carry x bpb b of
           Inl f \<Rightarrow> fillEngineTimeInfo_carry64 x bpb (b\<lparr>barStartTick :=
               si\<rparr>) = Some (Inl f)
         | Inr (x', b') \<Rightarrow>
             \<exists>s. fillEngineTimeInfo_carry64 x bpb (b\<lparr>barStartTick := si\<rparr>) =
                    Some (Inr (x', b'\<lparr>barStartTick := s\<rparr>))"
  using assms
proof (induction x bpb b arbitrary: si rule: fillEngineTimeInfo_carry.induct)
  case (1 x bpb b)
  let ?bs = "b\<lparr>barStartTick := si\<rparr>"
  have c64: "fillEngineTimeInfo_carry64 x bpb ?bs =
     (if x \<ge> kTicksPerBeat then
        (case int32_add (beat ?bs) 1 of
           Inl f \<Rightarrow> Some (Inl f)
         | Inr beat1 \<Rightarrow>
             if real_of_int beat1 > bpb then
               (case int32_add (bar ?bs) 1 of
                  Inl f \<Rightarrow> Some (Inl f)
                | Inr bar1 \<Rightarrow>
                    fillEngineTimeInfo_carry64 (binary64 (x - kTicksPerBeat)) bpb
                      (?bs\<lparr>bar := bar1, beat := 1,
                         barStartTick :=
                           binary64 (barStartTick ?bs + binary64 (bpb * kTicksPerBeat))\<rparr>))
             else fillEngineTimeInfo_carry64 (binary64 (x - kTicksPerBeat)) bpb
                    (?bs\<lparr>beat := beat1\<rparr>))
      else Some (Inr (x, ?bs)))"
    by (rule fillEngineTimeInfo_carry64.simps)
  have sel: "beat ?bs = beat b" "bar ?bs = bar b" "barStartTick ?bs = si"
    by simp_all
  have c: "fillEngineTimeInfo_carry x bpb b =
     (if x \<ge> kTicksPerBeat then
        (case int32_add (beat b) 1 of
           Inl f \<Rightarrow> Inl f
         | Inr beat1 \<Rightarrow>
             if real_of_int beat1 > bpb then
               (case int32_add (bar b) 1 of
                  Inl f \<Rightarrow> Inl f
                | Inr bar1 \<Rightarrow>
                    fillEngineTimeInfo_carry (x - kTicksPerBeat) bpb
                      (b\<lparr>bar := bar1, beat := 1,
                         barStartTick := barStartTick b + bpb * kTicksPerBeat\<rparr>))
             else fillEngineTimeInfo_carry (x - kTicksPerBeat) bpb (b\<lparr>beat := beat1\<rparr>))
      else Inr (x, b))"
    by (rule fillEngineTimeInfo_carry.simps)
  show ?case
  proof (cases "kTicksPerBeat \<le> x")
    case False
    then show ?thesis
      unfolding c c64 by (auto intro: exI[of _ si])
  next
    case True
    then have x: "real_of_int 1920 \<le> x" by (simp add: kTicksPerBeat_def)
    have "binary64 (x - real_of_int 1920) = x - real_of_int 1920"
      using "1.prems"(1) _ x "1.prems"(3) by (rule binary64_sub_int) simp
    then have sub: "binary64 (x - kTicksPerBeat) = x - kTicksPerBeat"
      by (simp add: kTicksPerBeat_def)
    have nxt: "binary64 (x - kTicksPerBeat) = x - kTicksPerBeat" "0 \<le> x - kTicksPerBeat"
      "x - kTicksPerBeat < 2 ^ 53"
      using sub x "1.prems"(3) by (simp_all add: kTicksPerBeat_def)
    show ?thesis
    proof (cases "int32_add (beat b) 1")
      case (Inl f)
      then show ?thesis
        unfolding c c64 by (simp add: True)
    next
      case beat1: (Inr beat1)
      show ?thesis
      proof (cases "real_of_int beat1 > bpb")
        case over: True
        show ?thesis
        proof (cases "int32_add (bar b) 1")
          case (Inl f)
          then show ?thesis
            unfolding c c64 by (simp add: True beat1 over)
        next
          case bar1: (Inr bar1)
          let ?b = "b\<lparr>bar := bar1, beat := 1,
                      barStartTick := barStartTick b + bpb * kTicksPerBeat\<rparr>"
          let ?s = "binary64 (si + binary64 (bpb * kTicksPerBeat))"
          have eq: "?bs\<lparr>bar := bar1, beat := 1, barStartTick := ?s\<rparr> =
                    ?b\<lparr>barStartTick := ?s\<rparr>"
            by simp
          have l: "fillEngineTimeInfo_carry x bpb b =
                     fillEngineTimeInfo_carry (x - kTicksPerBeat) bpb ?b"
            unfolding c by (simp add: True beat1 over bar1)
          have r: "fillEngineTimeInfo_carry64 x bpb ?bs =
                     fillEngineTimeInfo_carry64 (x - kTicksPerBeat) bpb (?b\<lparr>barStartTick
                         := ?s\<rparr>)"
            unfolding c64 by (simp only: sel True beat1 over bar1 sub eq if_True sum.case)
          from "1.IH"(1)[where si = ?s, OF True beat1 over bar1 nxt]
          show ?thesis
            by (simp only: l r)
        qed
      next
        case under: False
        let ?b = "b\<lparr>beat := beat1\<rparr>"
        have eq: "?bs\<lparr>beat := beat1\<rparr> = ?b\<lparr>barStartTick := si\<rparr>"
          by simp
        have l: "fillEngineTimeInfo_carry x bpb b =
                   fillEngineTimeInfo_carry (x - kTicksPerBeat) bpb ?b"
          unfolding c by (simp add: True beat1 under)
        have r: "fillEngineTimeInfo_carry64 x bpb ?bs =
                   fillEngineTimeInfo_carry64 (x - kTicksPerBeat) bpb (?b\<lparr>barStartTick :=
                       si\<rparr>)"
          unfolding c64 by (simp only: sel True beat1 under sub eq if_True if_False sum.case)
        from "1.IH"(2)[where si = si, OF True beat1 under nxt]
        show ?thesis
          by (simp only: l r)
      qed
    qed
  qed
qed

lemma carry64_in_range:
  assumes d: "binary64 x = x" and x0: "0 \<le> x" and "1 \<le> bar b" and "1 \<le> beat b"
    and "real_of_int (beat b) \<le> bpb" and "bpb < 2 ^ 31 - 1"
    and fit: "bar b + \<lfloor>x / 1920\<rfloor> < 2 ^ 31"
  shows "\<exists>x' b'. fillEngineTimeInfo_carry64 x bpb b = Some (Inr (x', b')) \<and>
           0 \<le> x' \<and> x' < 1920 \<and> 1 \<le> bar b' \<and> 1 \<le> beat b'"
proof -
  have "\<lfloor>x / 1920\<rfloor> < 2 ^ 31" using fit assms(3) by linarith
  then have "x / 1920 < real_of_int (2 ^ 31)" by (simp only: floor_less_iff)
  then have lt: "x < 2 ^ 53" by simp
  from carry_in_range[OF x0 assms(3-6) fit]
  obtain x' b' where c: "fillEngineTimeInfo_carry x bpb b = Inr (x', b')"
    "0 \<le> x'" "x' < 1920" "1 \<le> bar b'" "1 \<le> beat b'"
    by blast
  from carry64_as_carry[OF d x0 lt, where bpb = bpb and b = b and si = "barStartTick b"] c(1)
  obtain s where "fillEngineTimeInfo_carry64 x bpb b = Some (Inr (x', b'\<lparr>barStartTick :=
      s\<rparr>))"
    by auto
  then show ?thesis using c(2-5) by simp
qed

lemma reset_abs_beat64_double:
  assumes "hylia_enabled t \<longrightarrow> binary64 (hylia_beat t) = hylia_beat t"
  shows "binary64 (reset_abs_beat64 t) = reset_abs_beat64 t"
  using assms by (simp add: reset_abs_beat64_def)

lemma reset_abs_beat64_nonneg:
  assumes "0 < sampleRate t" and "0 < beatsPerMinute t"
  shows "0 \<le> reset_abs_beat64 t"
proof -
  have "0 \<le> binary64 (real (frame (timeInfo t)))" by (rule binary64_nonneg) simp
  moreover have "0 \<le> binary64 (sampleRate t * 60)"
    using assms(1) by (intro binary64_nonneg) simp
  ultimately have "0 \<le> binary64 (binary64 (real (frame (timeInfo t))) /
                                   binary64 (sampleRate t * 60))"
    by (intro binary64_nonneg) simp
  then have "0 \<le> binary64 (binary64 (binary64 (real (frame (timeInfo t))) /
                                   binary64 (sampleRate t * 60)) * beatsPerMinute t)"
    using assms(2) by (intro binary64_nonneg) simp
  then show ?thesis by (simp add: reset_abs_beat64_def)
qed

lemma reset64_in_range:
  assumes d: "binary64 (reset_abs_beat64 t) = reset_abs_beat64 t"
    and ab: "0 \<le> reset_abs_beat64 t" and far: "reset_abs_beat64 t < 2 ^ 41"
    and B: "beatsPerBar t = of_int B" "1 \<le> B" "B < 2 ^ 31 - 1"
    and bars: "\<lfloor>reset_abs_beat64 t / beatsPerBar t\<rfloor> < 2 ^ 31 - 1"
  shows "\<exists>x t'. fillEngineTimeInfo_reset64 t = Inr (x, t') \<and> 0 \<le> x \<and> x <
      1920 \<and>
           1 \<le> bar (bbt (timeInfo t')) \<and> 1 \<le> beat (bbt (timeInfo t'))"
proof -
  let ?ab = "reset_abs_beat64 t"
  let ?bpb = "beatsPerBar t"
  define Q where "Q = \<lfloor>?ab / ?bpb\<rfloor>"
  define R where "R = \<lfloor>fmod ?ab ?bpb\<rfloor>"
  define M where "M = \<lfloor>?ab\<rfloor>"
  have pos: "0 < ?bpb" using B by simp
  note fm = fmod_nonneg[OF ab pos]
  have Q0: "0 \<le> Q" using ab pos by (simp add: Q_def)
  have R0: "0 \<le> R" using fm(2) by (simp add: R_def)
  have M0: "0 \<le> M" using ab by (simp add: M_def)
  have "real_of_int R \<le> fmod ?ab ?bpb" by (simp add: R_def)
  then have "real_of_int R < real_of_int B" using fm(3) B(1) by simp
  then have "R < B" by (simp only: of_int_less_iff)
  then have R1: "R < 2 ^ 31 - 1" using B(3) by simp
  have Q1: "Q < 2 ^ 31 - 1" using bars by (simp add: Q_def)
  have a53: "?ab < 2 ^ 53" using far by simp
  have fQ: "\<lfloor>binary64 (?ab / ?bpb)\<rfloor> = Q"
  proof (cases "?ab = 0")
    case True
    then show ?thesis by (simp add: Q_def)
  next
    case False
    then have "0 < ?ab" using ab by simp
    from floor_quotient64[OF d this a53 B(2)] show ?thesis
      by (simp add: Q_def B(1))
  qed
  have "fmod ?ab ?bpb = ?ab - real_of_int (B * Q)"
    using fm(1) by (simp add: Q_def B(1))
  then have "R = M - B * Q"
    unfolding R_def M_def by (simp only: floor_diff_of_int)
  then have QR: "Q * B + R = M" by (simp add: algebra_simps)
  have "real_of_int M \<le> ?ab" by (simp add: M_def)
  then have "real_of_int M < real_of_int (2 ^ 41)" using far by simp
  then have M1: "M < 2 ^ 41" by (simp only: of_int_less_iff)
  have QB: "0 \<le> Q * B" "Q * B \<le> M" using Q0 B(2) R0 QR by simp_all
  have "binary64 (real_of_int (Q * B)) = real_of_int (Q * B)"
    using QB M1 by (intro binary64_of_int) simp
  then have e1: "binary64 (real_of_int Q * ?bpb) = real_of_int (Q * B)"
    by (simp add: B(1))
  have "binary64 (real_of_int M) = real_of_int M"
    using M0 M1 by (intro binary64_of_int) simp
  then have e2: "binary64 (real_of_int (Q * B) + real_of_int R) = real_of_int M"
    by (simp add: QR[symmetric])
  have "binary64 (real_of_int (M * 1920)) = real_of_int (M * 1920)"
    using M0 M1 by (intro binary64_of_int) simp
  then have e3: "binary64 (real_of_int M * kTicksPerBeat) = real_of_int (M * 1920)"
    by (simp add: kTicksPerBeat_def)
  define bst where "bst = real_of_int (M * 1920)"
  have fB: "binary64 (binary64 (binary64 (real_of_int Q * ?bpb) + real_of_int R)
              * kTicksPerBeat) = bst"
    by (simp only: e1 e2 e3 bst_def)
  define x where "x = binary64 (binary64 (?ab * kTicksPerBeat) - bst)"
  have x: "0 \<le> x \<and> x < 1920"
  proof (cases "?ab = 0")
    case True
    then show ?thesis by (simp add: x_def bst_def M_def)
  next
    case False
    then have "0 < ?ab" using ab by simp
    from tick_of_beat64[OF d this far] show ?thesis
      by (simp add: x_def bst_def M_def kTicksPerBeat_def)
  qed
  have cQ: "double_to_int32 (real_of_int Q) = Inr Q"
    using Q0 Q1 by (simp add: double_to_int32_def int32_range_def)
  have aQ: "int32_add Q 1 = Inr (Q + 1)"
    using Q0 Q1 by (simp add: int32_add_def int32_range_def)
  have cR: "double_to_int32 (real_of_int R) = Inr R"
    using R0 R1 by (simp add: double_to_int32_def int32_range_def)
  have aR: "int32_add R 1 = Inr (R + 1)"
    using R0 R1 by (simp add: int32_add_def int32_range_def)
  have nz: "?bpb \<noteq> 0" using pos by simp
  have rab: "\<And>u. reset_abs_beat64 (t\<lparr>timeInfo := (timeInfo t)\<lparr>bbt :=
      u\<rparr>\<rparr>) = ?ab"
    by (simp add: reset_abs_beat64_def)
  show ?thesis
    using x Q0 R0 nz
    by (simp add: fillEngineTimeInfo_reset64_def Let_def rab fQ R_def[symmetric] cQ aQ cR aR fB
        x_def[symmetric])
qed

subsection \<open>The numeric contract\<close>

lemma tick_advance64_nonneg:
  assumes "0 < sampleRate t" and "0 < beatsPerMinute t"
  shows "0 \<le> tick_advance64 t n"
proof -
  have "0 \<le> binary64 (real n * kTicksPerBeat)"
    by (rule binary64_nonneg) (simp add: kTicksPerBeat_def)
  then have "0 \<le> binary64 (binary64 (real n * kTicksPerBeat) * beatsPerMinute t)"
    using assms(2) by (intro binary64_nonneg) simp
  moreover have "0 \<le> binary64 (sampleRate t * 60)"
    using assms(1) by (intro binary64_nonneg) simp
  ultimately show ?thesis
    unfolding tick_advance64_def by (intro binary64_nonneg) simp
qed




text \<open>
  It also fails where the bar number leaves \<open>int32_t\<close>: after a relocation to frame
  \<open>2 ^ 48\<close> the reset computes bar 2932031007, whose conversion is undefined.
\<close>

theorem relocated_far_overflows:
  "0 < sampleRate relocated_transport \<and> 0 < beatsPerMinute relocated_transport \<and>
   1 \<le> beatsPerBar relocated_transport \<and>
   0 \<le> tick relocated_transport \<and> tick relocated_transport < 1920 \<and>
   plain_rates relocated_transport \<and>
   fillEngineTimeInfo64 relocated_transport 512 = Some (Inl IntOverflow)"
proof -
  have v0: "binary64 (281474976710656) = 281474976710656"
    by (subst binary64_eval[where k = 48]) (simp_all add: round_even_def)
  have v1: "binary64 (2880000) = 2880000"
    by (subst binary64_eval[where k = 21]) (simp_all add: round_even_def)
  have v2: "binary64 (549755813888 / 5625) = 819855292164869 / 8388608"
    by (subst binary64_eval[where k = 26]) (simp_all add: round_even_def)
  have v3: "binary64 (12297829382473035 / 1048576) = 3074457345618259 / 262144"
    by (subst binary64_eval[where k = 33]) (simp_all add: round_even_def)
  have v4: "binary64 (46116860184273885 / 2048) = 1441151880758559 / 64"
    by (subst binary64_eval[where k = 44]) (simp_all add: round_even_def)
  have v5: "binary64 (3074457345618259 / 1048576) = 3074457345618259 / 1048576"
    by (subst binary64_eval[where k = 31]) (simp_all add: round_even_def)
  have v6: "binary64 (11728124028) = 11728124028"
    by (subst binary64_eval[where k = 33]) (simp_all add: round_even_def)
  have v7: "binary64 (11728124029) = 11728124029"
    by (subst binary64_eval[where k = 33]) (simp_all add: round_even_def)
  have v8: "binary64 (22517998135680) = 22517998135680"
    by (subst binary64_eval[where k = 44]) (simp_all add: round_even_def)
  have v9: "binary64 (75039 / 64) = 75039 / 64"
    by (subst binary64_eval[where k = 10]) (simp_all add: round_even_def)
  show ?thesis
    by (simp add: relocated_transport_def fresh_transport_def fillEngineTimeInfo64_def
        fillEngineTimeInfo_frame_def carla_isNotZero_def fillEngineTimeInfo_reset64_def
        reset_abs_beat64_def fmod_def Let_def double_to_int32_def int32_add_def int32_range_def
        trunc_def kTicksPerBeat_def plain_rates_def v0 v1 v2 v3 v4 v5 v6 v7 v8 v9)
qed

subsection \<open>The first two calls\<close>

text \<open>The first call on the fresh clock, with 512 frames, leads to
    \<open>started_transport\<close>.\<close>

lemma fresh_call64:
  "fillEngineTimeInfo64 fresh_transport 512 = Some (Inr started_transport)"
proof -
  have "\<lfloor>log 2 \<bar>4 :: real\<bar>\<rfloor> = 2"
    by (rule binade_eq) simp_all
  then have f: "binary32 4 = 4"
    by (simp add: binary32_def round_even_def)
  show ?thesis
    by (simp add: fresh_transport_def started_transport_def fillEngineTimeInfo64_def
        fillEngineTimeInfo_frame_def carla_isNotZero_def fillEngineTimeInfo_reset64_def
        reset_abs_beat64_def fmod_def Let_def double_to_int32_def int32_add_def int32_range_def
        trunc_def kTicksPerBeat_def f)
qed

text \<open>
  The next call with 512 frames leaves bar 1, beat 1 and stores the double nearest to
  40.96 as the tick.
\<close>

lemma second_call64:
  "\<exists>t'. fillEngineTimeInfo64 started_transport 512 = Some (Inr t') \<and>
        bbt_position t' = (1, 1, 5764607523034235 / 140737488355328) \<and>
        tick t' = 5764607523034235 / 140737488355328 \<and>
        \<bar>tick t' - 4096 / 100\<bar> < 1 / 2 ^ 47"
proof -
  have a0: "binary64 (983040) = 983040"
    by (subst binary64_eval[where k = 19]) (simp_all add: round_even_def)
  have a1: "binary64 (117964800) = 117964800"
    by (subst binary64_eval[where k = 26]) (simp_all add: round_even_def)
  have a2: "binary64 (2880000) = 2880000"
    by (subst binary64_eval[where k = 21]) (simp_all add: round_even_def)
  have a3: "binary64 (1024 / 25) = 5764607523034235 / 140737488355328"
    by (subst binary64_eval[where k = 5]) (simp_all add: round_even_def)
  have a4: "binary64 (5764607523034235 / 140737488355328) =
              5764607523034235 / 140737488355328"
    by (subst binary64_eval[where k = 5]) (simp_all add: round_even_def)
  show ?thesis
    by (simp add: started_transport_def fillEngineTimeInfo64_def
        fillEngineTimeInfo_frame_def carla_isNotZero_def tick_advance64_def Let_def
        kTicksPerBeat_def a0 a1 a2 a3 a4
        fillEngineTimeInfo_carry64.simps[of "5764607523034235 / 140737488355328"]
        bbt_position_def)
qed

subsection \<open>Successive calls and one call\<close>

text \<open>The relative error of a rounding is at most \<open>2 ^ - 53\<close>.\<close>

lemma binary64_error: "\<bar>binary64 z - z\<bar> \<le> \<bar>z\<bar> / 2 ^ 53"
proof (cases "z = 0")
  case True
  then show ?thesis by simp
next
  case False
  define e where "e = \<lfloor>log 2 \<bar>z\<bar>\<rfloor>"
  have u: "ulp z = 2 powi e / 2 ^ 52" by (simp add: ulp_def e_def power_int_diff)
  have "2 powi e \<le> \<bar>z\<bar>" unfolding e_def by (rule binade_bounds(1)[OF False])
  then have ub: "ulp z \<le> \<bar>z\<bar> / 2 ^ 52" by (simp add: u divide_right_mono)
  have "binary64 z - z = ulp z * (of_int (round_even (z / ulp z)) - z / ulp z)"
    using False ulp_pos[of z] by (simp add: binary64_def algebra_simps)
  then have "\<bar>binary64 z - z\<bar> = ulp z * \<bar>of_int (round_even (z / ulp z)) - z /
      ulp z\<bar>"
    using ulp_pos[of z] by (simp add: abs_mult)
  also have "\<dots> \<le> ulp z * (1 / 2)"
    using ulp_pos[of z] round_even_err[of "z / ulp z"] by (intro mult_left_mono) simp_all
  also have "\<dots> \<le> (\<bar>z\<bar> / 2 ^ 52) * (1 / 2)"
    using ub by (intro mult_right_mono) simp_all
  also have "\<dots> = \<bar>z\<bar> / 2 ^ 53" by simp
  finally show ?thesis .
qed

lemma binary64_pos:
  assumes "0 < z"
  shows "0 < binary64 z"
proof -
  have "\<bar>binary64 z - z\<bar> \<le> z / 2 ^ 53" using binary64_error[of z] assms by simp
  then have "z - z / 2 ^ 53 \<le> binary64 z" by linarith
  moreover have "0 < z - z / 2 ^ 53" using assms by simp
  ultimately show ?thesis by linarith
qed

lemma ticks_travelled_nonneg:
  assumes "0 < sampleRate t" and "0 < beatsPerMinute t"
  shows "0 \<le> ticks_travelled t n"
proof -
  have "0 < binary64 (sampleRate t * 60)" using assms(1) by (intro binary64_pos) simp
  then show ?thesis
    using assms(2) by (simp add: ticks_travelled_def kTicksPerBeat_def)
qed

lemma ticks_travelled_add:
  "ticks_travelled t (m + n) = ticks_travelled t m + ticks_travelled t n"
  by (simp add: ticks_travelled_def algebra_simps add_divide_distrib)

text \<open>The advance of a call is the ticks of its frames up to a relative error of \<open>2
    ^ - 51\<close>.\<close>

lemma tick_advance64_error:
  assumes sr: "0 < sampleRate t" and bpm: "0 < beatsPerMinute t" and n: "n < 2 ^ 32"
  shows "\<bar>tick_advance64 t n - ticks_travelled t n\<bar> \<le> ticks_travelled t n / 2 ^ 51"
proof -
  define s where "s = binary64 (sampleRate t * 60)"
  define w where "w = real n * 1920 * beatsPerMinute t"
  define p where "p = binary64 w"
  define V where "V = ticks_travelled t n"
  have spos: "0 < s" unfolding s_def using sr by (intro binary64_pos) simp
  have w0: "0 \<le> w" using bpm by (simp add: w_def)
  have Vw: "V = w / s" by (simp add: V_def ticks_travelled_def kTicksPerBeat_def w_def s_def)
  have V0: "0 \<le> V" using w0 spos by (simp add: Vw)
  have "int n * 1920 < 2 ^ 32 * 1920" using n by simp
  then have "\<bar>int n * 1920\<bar> \<le> 2 ^ 53" by simp
  then have "binary64 (real_of_int (int n * 1920)) = real_of_int (int n * 1920)"
    by (rule binary64_of_int)
  then have e0: "binary64 (real n * kTicksPerBeat) = real n * 1920"
    by (simp add: kTicksPerBeat_def)
  have A: "tick_advance64 t n = binary64 (p / s)"
    by (simp add: tick_advance64_def e0 p_def w_def s_def)
  have "\<bar>p - w\<bar> \<le> w / 2 ^ 53" unfolding p_def using binary64_error[of w] w0 by simp
  then have pw: "\<bar>p / s - w / s\<bar> \<le> (w / s) / 2 ^ 53"
  proof -
    assume a: "\<bar>p - w\<bar> \<le> w / 2 ^ 53"
    have "\<bar>p / s - w / s\<bar> = \<bar>p - w\<bar> / s"
      using spos by (simp add: diff_divide_distrib[symmetric] abs_divide)
    also have "\<dots> \<le> (w / 2 ^ 53) / s" using a spos by (intro divide_right_mono) simp_all
    finally show ?thesis by simp
  qed
  then have ps: "\<bar>p / s - V\<bar> \<le> V / 2 ^ 53" by (simp only: Vw)
  then have ps2: "\<bar>p / s\<bar> \<le> V + V / 2 ^ 53" using V0 by linarith
  have "\<bar>binary64 (p / s) - p / s\<bar> \<le> \<bar>p / s\<bar> / 2 ^ 53" by (rule
      binary64_error)
  also have "\<dots> \<le> (V + V / 2 ^ 53) / 2 ^ 53" using ps2 by (intro divide_right_mono)
      simp_all
  finally have "\<bar>binary64 (p / s) - V\<bar> \<le> (V + V / 2 ^ 53) / 2 ^ 53 + V / 2 ^ 53"
    using ps by linarith
  also have "\<dots> \<le> V / 2 ^ 51" using V0 by (simp add: field_simps)
  finally show ?thesis by (simp only: A V_def)
qed

text \<open>The loop moves whole beats from the tick to the counters: the position stays.\<close>

lemma carry_position:
  assumes "fillEngineTimeInfo_carry x bpb b = Inr (x', b')"
    and "1 \<le> beat b" and "real_of_int (beat b) \<le> bpb"
  shows "real_of_int (beats_done bpb b') * 1920 + x' = real_of_int (beats_done bpb b) * 1920 + x
         \<and> real_of_int (beat b') \<le> bpb"
  using assms
proof (induction x bpb b rule: fillEngineTimeInfo_carry.induct)
  case (1 x bpb b)
  show ?case
  proof (cases "kTicksPerBeat \<le> x")
    case False
    then have "fillEngineTimeInfo_carry x bpb b = Inr (x, b)"
      by (intro carry_below) simp
    with "1.prems" show ?thesis by simp
  next
    case True
    note st = carry_step[OF True, of bpb b]
    from "1.prems"(1) st obtain beat1 where beat1: "int32_add (beat b) 1 = Inr beat1"
      by (cases "int32_add (beat b) 1") simp_all
    then have b1: "beat1 = beat b + 1"
      by (simp add: int32_add_def split: if_splits)
    have L: "real_of_int \<lfloor>bpb\<rfloor> \<le> bpb" by simp
    have bl: "beat b \<le> \<lfloor>bpb\<rfloor>" using "1.prems"(3) by (simp add: le_floor_iff)
    show ?thesis
    proof (cases "real_of_int beat1 > bpb")
      case over: True
      from "1.prems"(1) st beat1 over obtain bar1 where bar1: "int32_add (bar b) 1 = Inr bar1"
        by (cases "int32_add (bar b) 1") simp_all
      then have r1: "bar1 = bar b + 1"
        by (simp add: int32_add_def split: if_splits)
      let ?b = "b\<lparr>bar := bar1, beat := 1,
                  barStartTick := barStartTick b + bpb * kTicksPerBeat\<rparr>"
      have res: "fillEngineTimeInfo_carry (x - kTicksPerBeat) bpb ?b = Inr (x', b')"
        using "1.prems"(1) st beat1 over bar1 by simp
      have one: "real_of_int (beat ?b) \<le> bpb"
        using "1.prems"(2,3) by simp
      from "1.IH"(1)[OF True beat1 over bar1 res _ one]
      have ih: "real_of_int (beats_done bpb b') * 1920 + x' =
                  real_of_int (beats_done bpb ?b) * 1920 + (x - kTicksPerBeat)"
        and bb: "real_of_int (beat b') \<le> bpb"
        by simp_all
      have "real_of_int \<lfloor>bpb\<rfloor> < real_of_int (beat b + 1)"
        using over b1 L by linarith
      then have "\<lfloor>bpb\<rfloor> < beat b + 1" by (simp only: of_int_less_iff)
      then have "beat b = \<lfloor>bpb\<rfloor>" using bl by simp
      then have "beats_done bpb ?b = beats_done bpb b + 1"
        by (simp add: beats_done_def r1 algebra_simps)
      then show ?thesis using ih bb by (simp add: kTicksPerBeat_def)
    next
      case under: False
      let ?b = "b\<lparr>beat := beat1\<rparr>"
      have res: "fillEngineTimeInfo_carry (x - kTicksPerBeat) bpb ?b = Inr (x', b')"
        using "1.prems"(1) st beat1 under by simp
      have one: "1 \<le> beat ?b" "real_of_int (beat ?b) \<le> bpb"
        using "1.prems"(2) under b1 by simp_all
      from "1.IH"(2)[OF True beat1 under res one]
      have ih: "real_of_int (beats_done bpb b') * 1920 + x' =
                  real_of_int (beats_done bpb ?b) * 1920 + (x - kTicksPerBeat)"
        and bb: "real_of_int (beat b') \<le> bpb"
        by simp_all
      have "beats_done bpb ?b = beats_done bpb b + 1"
        by (simp add: beats_done_def b1)
      then show ?thesis using ih bb by (simp add: kTicksPerBeat_def)
    qed
  qed
qed

text \<open>
  One call on a running clock: the position advances by the rounded sum of the tick
  and the advance, less the tick.
\<close>

lemma playing_call64:
  assumes rc: "running_clock t" and n: "0 < n"
    and fit: "bar (bbt (timeInfo t)) +
                \<lfloor>binary64 (tick t + tick_advance64 t n) / 1920\<rfloor> < 2 ^ 31"
  shows "\<exists>t'. fillEngineTimeInfo64 t n = Some (Inr t') \<and> running_clock t' \<and>
           sampleRate t' = sampleRate t \<and> beatsPerMinute t' = beatsPerMinute t \<and>
           beatsPerBar t' = beatsPerBar t \<and>
           tick_position t' =
             tick_position t - tick t + binary64 (tick t + tick_advance64 t n)"
proof -
  let ?t1 = "fillEngineTimeInfo_frame t"
  let ?x = "binary64 (tick t + tick_advance64 t n)"
  let ?b = "bbt (timeInfo t)"
  let ?bpb = "beatsPerBar t"
  from rc have pl: "playing (timeInfo t)" and nr: "\<not> needsReset t"
    and sr: "0 < sampleRate t" and bpm: "0 < beatsPerMinute t"
    and bfit: "?bpb < 2 ^ 31 - 1" and bar1: "1 \<le> bar ?b" and beat1: "1 \<le> beat ?b"
    and beatb: "real_of_int (beat ?b) \<le> ?bpb" and t0: "0 \<le> tick t" and t1: "tick t < 1920"
    by (simp_all add: running_clock_def)
  have same: "sampleRate ?t1 = sampleRate t" "beatsPerMinute ?t1 = beatsPerMinute t"
    "beatsPerBar ?t1 = beatsPerBar t" "tick ?t1 = tick t" "needsReset ?t1 = needsReset t"
    "playing (timeInfo ?t1) = playing (timeInfo t)" "bbt (timeInfo ?t1) = bbt (timeInfo t)"
    "tick_advance64 ?t1 n = tick_advance64 t n"
    by (simp_all add: fillEngineTimeInfo_frame_def tick_advance64_def)
  have guard: "carla_isNotZero (sampleRate t)"
    using sr by (simp add: carla_isNotZero_def)
  have pr: "\<And>u. sampleRate u = sampleRate t \<Longrightarrow> beatsPerMinute u =
      beatsPerMinute t \<Longrightarrow>
              plain_rates u"
    using rc by (simp add: running_clock_def plain_rates_def)
  have adv: "0 \<le> tick_advance64 t n"
    using sr bpm by (rule tick_advance64_nonneg)
  then have x0: "0 \<le> ?x" using t0 by (intro binary64_nonneg) simp
  have d: "binary64 ?x = ?x" by simp
  have "\<lfloor>?x / 1920\<rfloor> < 2 ^ 31" using fit bar1 by linarith
  then have "?x / 1920 < real_of_int (2 ^ 31)" by (simp only: floor_less_iff)
  then have lt: "?x < 2 ^ 53" by simp
  from carry_in_range[OF x0 bar1 beat1 beatb bfit fit]
  obtain x' b' where c: "fillEngineTimeInfo_carry ?x ?bpb ?b = Inr (x', b')"
    "0 \<le> x'" "x' < 1920" "1 \<le> bar b'" "1 \<le> beat b'"
    by blast
  from carry_position[OF c(1) beat1 beatb]
  have p: "real_of_int (beats_done ?bpb b') * 1920 + x' =
             real_of_int (beats_done ?bpb ?b) * 1920 + ?x"
    and bb: "real_of_int (beat b') \<le> ?bpb"
    by simp_all
  from carry64_as_carry[OF d x0 lt, where bpb = ?bpb and b = ?b and si = "barStartTick ?b"] c(1)
  obtain s where c64: "fillEngineTimeInfo_carry64 ?x ?bpb ?b =
      Some (Inr (x', b'\<lparr>barStartTick := s\<rparr>))"
    by auto
  have bd: "beats_done ?bpb (b'\<lparr>barStartTick := s\<rparr>) = beats_done ?bpb b'"
    by (simp add: beats_done_def)
  have pos: "real_of_int (beats_done ?bpb b') * 1920 + x' = tick_position t - tick t + ?x"
    using p by (simp add: tick_position_def kTicksPerBeat_def)
  show ?thesis
    using guard n pl nr c64 c(2-5) bb sr bpm bfit pos
    by (simp add: fillEngineTimeInfo64_def Let_def same running_clock_def pr
        tick_position_def beats_done_def kTicksPerBeat_def)
qed

lemma ticks_travelled_cong:
  assumes "sampleRate t' = sampleRate t" and "beatsPerMinute t' = beatsPerMinute t"
  shows "ticks_travelled t' n = ticks_travelled t n"
  using assms by (simp add: ticks_travelled_def)

text \<open>
  One call on a running clock advances the position by the ticks of its frames, up to
  the rounding of the advance and of the sum.
\<close>

lemma playing_call64_error:
  assumes rc: "running_clock t" and n: "0 < n" "n < 2 ^ 32"
    and range: "tick_position t + 4 * ticks_travelled t n + 5760 < 1920 * 2 ^ 31"
  shows "\<exists>t'. fillEngineTimeInfo64 t n = Some (Inr t') \<and> running_clock t' \<and>
           sampleRate t' = sampleRate t \<and> beatsPerMinute t' = beatsPerMinute t \<and>
           beatsPerBar t' = beatsPerBar t \<and>
           \<bar>tick_position t' - tick_position t - ticks_travelled t n\<bar>
             \<le> ticks_travelled t n / 2 ^ 50 + 1 / 2 ^ 42"
proof -
  define V where "V = ticks_travelled t n"
  define A where "A = tick_advance64 t n"
  define z where "z = tick t + A"
  define x where "x = binary64 z"
  let ?b = "bbt (timeInfo t)"
  from rc have sr: "0 < sampleRate t" and bpm: "0 < beatsPerMinute t"
    and bar1: "1 \<le> bar ?b" and beat1: "1 \<le> beat ?b"
    and beatb: "real_of_int (beat ?b) \<le> beatsPerBar t"
    and t0: "0 \<le> tick t" and t1: "tick t < 1920"
    by (simp_all add: running_clock_def)
  have V0: "0 \<le> V" unfolding V_def using sr bpm by (rule ticks_travelled_nonneg)
  have AV: "\<bar>A - V\<bar> \<le> V / 2 ^ 51"
    unfolding A_def V_def using sr bpm n(2) by (rule tick_advance64_error)
  have A0: "0 \<le> A" unfolding A_def using sr bpm by (rule tick_advance64_nonneg)
  have "V / 2 ^ 51 \<le> V" using V0 by (simp add: field_simps)
  then have A2: "A \<le> 2 * V" using AV by linarith
  have z0: "0 \<le> z" using t0 A0 by (simp add: z_def)
  have zb: "z \<le> 1920 + 2 * V" using t1 A2 by (simp add: z_def)
  have xz: "\<bar>x - z\<bar> \<le> z / 2 ^ 53"
    unfolding x_def using binary64_error[of z] z0 by simp
  have "z / 2 ^ 53 \<le> z" using z0 by (simp add: field_simps)
  then have xb: "x \<le> 3840 + 4 * V" using xz zb by linarith
  have x0: "0 \<le> x" unfolding x_def using z0 by (rule binary64_nonneg)
  \<comment> \<open>the counters fit\<close>
  have "real_of_int 1 \<le> real_of_int (beat ?b)" using beat1 by (simp only: of_int_le_iff)
  then have "real_of_int 1 \<le> beatsPerBar t" using beatb by linarith
  then have L1: "1 \<le> \<lfloor>beatsPerBar t\<rfloor>" by (simp only: le_floor_iff)
  have "(bar ?b - 1) * 1 \<le> (bar ?b - 1) * \<lfloor>beatsPerBar t\<rfloor>"
    using bar1 L1 by (intro mult_left_mono) simp_all
  then have "bar ?b - 1 \<le> beats_done (beatsPerBar t) ?b"
    using beat1 by (simp add: beats_done_def)
  then have "real_of_int (bar ?b - 1) \<le> real_of_int (beats_done (beatsPerBar t) ?b)"
    by (simp only: of_int_le_iff)
  then have barp: "real_of_int (bar ?b) * 1920 \<le> tick_position t + 1920"
    using t0 by (simp add: tick_position_def kTicksPerBeat_def)
  define q where "q = x / 1920"
  have "real_of_int \<lfloor>q\<rfloor> \<le> q" by (rule of_int_floor_le)
  moreover have "q * 1920 = x" by (simp add: q_def)
  ultimately have "real_of_int \<lfloor>q\<rfloor> * 1920 \<le> x" by linarith
  then have "real_of_int \<lfloor>x / 1920\<rfloor> * 1920 \<le> x" by (simp only: q_def)
  then have "real_of_int (bar ?b + \<lfloor>x / 1920\<rfloor>) * 1920 < 1920 * 2 ^ 31"
    using barp xb range V_def by (simp add: algebra_simps)
  then have "real_of_int (bar ?b + \<lfloor>x / 1920\<rfloor>) < real_of_int (2 ^ 31)" by simp
  then have fit: "bar ?b + \<lfloor>x / 1920\<rfloor> < 2 ^ 31" by (simp only: of_int_less_iff)
  from playing_call64[OF rc n(1)] fit
  obtain t' where t': "fillEngineTimeInfo64 t n = Some (Inr t')" "running_clock t'"
    "sampleRate t' = sampleRate t" "beatsPerMinute t' = beatsPerMinute t"
    "beatsPerBar t' = beatsPerBar t"
    "tick_position t' = tick_position t - tick t + x"
    unfolding x_def z_def A_def by blast
  have "tick_position t' - tick_position t - V = (x - z) + (A - V)"
    using t'(6) by (simp add: z_def)
  then have "\<bar>tick_position t' - tick_position t - V\<bar> \<le> z / 2 ^ 53 + V / 2 ^ 51"
    using xz AV by linarith
  also have "\<dots> \<le> (1920 + 2 * V) / 2 ^ 53 + V / 2 ^ 51"
    using zb by (simp add: divide_right_mono)
  also have "\<dots> \<le> V / 2 ^ 50 + 1 / 2 ^ 42"
    using V0 by (simp add: field_simps)
  finally show ?thesis using t'(1-5) unfolding V_def by blast
qed

lemma playing_calls64:
  assumes "running_clock t" and "\<forall>f\<in>set fs. 0 < f" and "sum_list fs < 2 ^ 32"
    and "tick_position t + 4 * ticks_travelled t (sum_list fs) + real (length fs) + 5760
           < 1920 * 2 ^ 31"
  shows "\<exists>t'. fillEngineTimeInfo_seq64 t fs = Some (Inr t') \<and> running_clock t' \<and>
           sampleRate t' = sampleRate t \<and> beatsPerMinute t' = beatsPerMinute t \<and>
           beatsPerBar t' = beatsPerBar t \<and>
           \<bar>tick_position t' - tick_position t - ticks_travelled t (sum_list fs)\<bar>
             \<le> ticks_travelled t (sum_list fs) / 2 ^ 50 + real (length fs) / 2 ^ 42"
  using assms
proof (induction fs arbitrary: t)
  case Nil
  then show ?case by (simp add: ticks_travelled_def)
next
  case (Cons f fs)
  define V1 where "V1 = ticks_travelled t f"
  define Vr where "Vr = ticks_travelled t (sum_list fs)"
  from Cons.prems(1) have sr: "0 < sampleRate t" and bpm: "0 < beatsPerMinute t"
    by (simp_all add: running_clock_def)
  have V10: "0 \<le> V1" and Vr0: "0 \<le> Vr"
    unfolding V1_def Vr_def using sr bpm by (rule ticks_travelled_nonneg)+
  have tot: "ticks_travelled t (sum_list (f # fs)) = V1 + Vr"
    by (simp add: ticks_travelled_add V1_def Vr_def)
  have f: "0 < f" "f < 2 ^ 32" using Cons.prems(2,3) by simp_all
  have r1: "tick_position t + 4 * ticks_travelled t f + 5760 < 1920 * 2 ^ 31"
    using Cons.prems(4) Vr0 unfolding tot V1_def[symmetric] by simp
  from playing_call64_error[OF Cons.prems(1) f r1]
  obtain t1 where t1: "fillEngineTimeInfo64 t f = Some (Inr t1)" "running_clock t1"
    "sampleRate t1 = sampleRate t" "beatsPerMinute t1 = beatsPerMinute t"
    "beatsPerBar t1 = beatsPerBar t"
    "\<bar>tick_position t1 - tick_position t - V1\<bar> \<le> V1 / 2 ^ 50 + 1 / 2 ^ 42"
    unfolding V1_def by blast
  have tt: "\<And>k. ticks_travelled t1 k = ticks_travelled t k"
    using t1(3,4) by (rule ticks_travelled_cong)
  have "V1 / 2 ^ 50 \<le> V1" using V10 by (simp add: field_simps)
  moreover have "(1::real) / 2 ^ 42 \<le> 1" by simp
  ultimately have p1: "tick_position t1 \<le> tick_position t + 2 * V1 + 1"
    using t1(6) by linarith
  have r2: "tick_position t1 + 4 * ticks_travelled t1 (sum_list fs) + real (length fs) + 5760
              < 1920 * 2 ^ 31"
    using Cons.prems(4) p1 V10 unfolding tot tt Vr_def[symmetric] by simp
  have fs: "\<forall>f\<in>set fs. 0 < f" "sum_list fs < 2 ^ 32"
    using Cons.prems(2,3) by simp_all
  from Cons.IH[OF t1(2) fs r2]
  obtain t' where t': "fillEngineTimeInfo_seq64 t1 fs = Some (Inr t')" "running_clock t'"
    "sampleRate t' = sampleRate t1" "beatsPerMinute t' = beatsPerMinute t1"
    "beatsPerBar t' = beatsPerBar t1"
    "\<bar>tick_position t' - tick_position t1 - Vr\<bar> \<le> Vr / 2 ^ 50 + real (length fs) /
        2 ^ 42"
    unfolding tt Vr_def by blast
  have s: "fillEngineTimeInfo_seq64 t (f # fs) = Some (Inr t')"
    using t1(1) t'(1) by simp
  have "\<bar>tick_position t' - tick_position t - (V1 + Vr)\<bar>
          \<le> (V1 / 2 ^ 50 + 1 / 2 ^ 42) + (Vr / 2 ^ 50 + real (length fs) / 2 ^ 42)"
    using t1(6) t'(6) by linarith
  also have "\<dots> = (V1 + Vr) / 2 ^ 50 + real (length (f # fs)) / 2 ^ 42"
    by (simp add: field_simps)
  finally have e: "\<bar>tick_position t' - tick_position t - ticks_travelled t (sum_list (f #
      fs))\<bar>
          \<le> ticks_travelled t (sum_list (f # fs)) / 2 ^ 50 + real (length (f # fs)) / 2 ^ 42"
    by (simp only: tot)
  show ?case
    using s t'(2) t'(3-5) t1(3-5) e by (intro exI[of _ t']) simp
qed

text \<open>
  C4, as amended. In binary64 arithmetic, on a running clock (\<open>running_clock\<close>:
      playing, no
  reset pending, sample rate and tempo positive and in the plain range, bar and beat at
  least 1, the beat within the bar, the tick in \<open>[0, 1920)\<close>), successive calls with the
  positive frame counts of a list and one call with their sum, a \<open>uint32_t\<close>, both
  return, provided that the position stays far enough below \<open>2 ^ 31\<close> beats for the
  counters to fit. The two final positions (\<open>tick_position\<close>: the whole beats that bar
  and beat count, times 1920, plus the tick) differ by at most \<open>2 ^ - 49\<close> of the ticks
  travelled plus \<open>2 ^ - 42\<close> tick for each call. Bar, beat and tick themselves need not
  agree.
\<close>

theorem split_buffers_reach_close_positions:
  assumes rc: "running_clock t"
    and fs: "\<forall>f\<in>set fs. 0 < f" and total: "sum_list fs < 2 ^ 32"
    and range: "tick_position t + 4 * ticks_travelled t (sum_list fs) + real (length fs) + 5760
                  < 1920 * 2 ^ 31"
  shows "\<exists>ts to.
           fillEngineTimeInfo_seq64 t fs = Some (Inr ts) \<and>
           fillEngineTimeInfo64 t (sum_list fs) = Some (Inr to) \<and>
           running_clock ts \<and> running_clock to \<and>
           \<bar>tick_position ts - tick_position to\<bar>
             \<le> ticks_travelled t (sum_list fs) / 2 ^ 49 + (real (length fs) + 1) / 2 ^ 42"
proof -
  define V where "V = ticks_travelled t (sum_list fs)"
  from rc have sr: "0 < sampleRate t" and bpm: "0 < beatsPerMinute t"
    by (simp_all add: running_clock_def)
  have V0: "0 \<le> V" unfolding V_def using sr bpm by (rule ticks_travelled_nonneg)
  from playing_calls64[OF rc fs total range]
  obtain ts where ts: "fillEngineTimeInfo_seq64 t fs = Some (Inr ts)" "running_clock ts"
    "\<bar>tick_position ts - tick_position t - V\<bar> \<le> V / 2 ^ 50 + real (length fs) / 2
        ^ 42"
    unfolding V_def by blast
  have "\<exists>to. fillEngineTimeInfo64 t (sum_list fs) = Some (Inr to) \<and> running_clock
      to \<and>
          \<bar>tick_position to - tick_position t - V\<bar> \<le> V / 2 ^ 50 + 1 / 2 ^ 42"
  proof (cases "sum_list fs = 0")
    case True
    then have "V = 0" by (simp add: V_def ticks_travelled_def)
    then show ?thesis
      using True rc by (simp add: fillEngineTimeInfo64_def)
  next
    case False
    then have pos: "0 < sum_list fs" by (simp only: neq0_conv)
    have "tick_position t + 4 * ticks_travelled t (sum_list fs) + 5760 < 1920 * 2 ^ 31"
      using range by simp
    from playing_call64_error[OF rc pos total this]
    show ?thesis unfolding V_def by blast
  qed
  then obtain to where to: "fillEngineTimeInfo64 t (sum_list fs) = Some (Inr to)"
    "running_clock to"
    "\<bar>tick_position to - tick_position t - V\<bar> \<le> V / 2 ^ 50 + 1 / 2 ^ 42"
    by blast
  have "\<bar>tick_position ts - tick_position to\<bar>
          \<le> (V / 2 ^ 50 + real (length fs) / 2 ^ 42) + (V / 2 ^ 50 + 1 / 2 ^ 42)"
    using ts(3) to(3) by linarith
  also have "\<dots> = V / 2 ^ 49 + (real (length fs) + 1) / 2 ^ 42"
    by (simp add: field_simps)
  finally show ?thesis
    using ts(1,2) to(1,2) unfolding V_def by blast
qed

theorem split_buffers_reach_close_positions_witness:
  "running_clock started_transport \<and> sum_list beat_of_buffers < 2 ^ 32 \<and>
   ticks_travelled started_transport (sum_list beat_of_buffers) = 1920 \<and>
   tick_position started_transport
     + 4 * ticks_travelled started_transport (sum_list beat_of_buffers)
     + real (length beat_of_buffers) + 5760 < 1920 * 2 ^ 31 \<and>
   (\<exists>ts to.
      fillEngineTimeInfo_seq64 started_transport beat_of_buffers = Some (Inr ts) \<and>
      fillEngineTimeInfo64 started_transport (sum_list beat_of_buffers) = Some (Inr to) \<and>
      running_clock ts \<and> running_clock to \<and>
      \<bar>tick_position ts - tick_position to\<bar>
        \<le> ticks_travelled started_transport (sum_list beat_of_buffers) / 2 ^ 49
          + (real (length beat_of_buffers) + 1) / 2 ^ 42)"
proof -
  have a: "binary64 (2880000) = 2880000"
    by (subst binary64_eval[where k = 21]) (simp_all add: round_even_def)
  have tt: "ticks_travelled started_transport (sum_list beat_of_buffers) = 1920"
    by (simp add: ticks_travelled_def started_transport_def beat_of_buffers_def
        kTicksPerBeat_def a)
  have h: "running_clock started_transport" "\<forall>f\<in>set beat_of_buffers. 0 < f"
    "sum_list beat_of_buffers < 2 ^ 32"
    "tick_position started_transport
       + 4 * ticks_travelled started_transport (sum_list beat_of_buffers)
       + real (length beat_of_buffers) + 5760 < 1920 * 2 ^ 31"
    by (simp_all add: tt)
       (simp_all add: started_transport_def running_clock_def plain_rates_def beat_of_buffers_def
        tick_position_def beats_done_def kTicksPerBeat_def)
  from split_buffers_reach_close_positions[OF h] h(1,3,4) tt
  show ?thesis
    by blast
qed

lemma playing_call64_below:
  assumes rc: "running_clock t" and n: "0 < n"
    and below: "binary64 (tick t + tick_advance64 t n) < 1920"
  shows "\<exists>t'. fillEngineTimeInfo64 t n = Some (Inr t') \<and> running_clock t' \<and>
           sampleRate t' = sampleRate t \<and> beatsPerMinute t' = beatsPerMinute t \<and>
           beatsPerBar t' = beatsPerBar t \<and>
           bar (bbt (timeInfo t')) = bar (bbt (timeInfo t)) \<and>
           beat (bbt (timeInfo t')) = beat (bbt (timeInfo t)) \<and>
           tick t' = binary64 (tick t + tick_advance64 t n) \<and>
           bbt_tick (bbt (timeInfo t')) = tick t'"
proof -
  let ?t1 = "fillEngineTimeInfo_frame t"
  let ?x = "binary64 (tick t + tick_advance64 t n)"
  from rc have pl: "playing (timeInfo t)" and nr: "\<not> needsReset t"
    and sr: "0 < sampleRate t" and bpm: "0 < beatsPerMinute t" and t0: "0 \<le> tick t"
    by (simp_all add: running_clock_def)
  have same: "sampleRate ?t1 = sampleRate t" "beatsPerMinute ?t1 = beatsPerMinute t"
    "beatsPerBar ?t1 = beatsPerBar t" "tick ?t1 = tick t" "needsReset ?t1 = needsReset t"
    "playing (timeInfo ?t1) = playing (timeInfo t)" "bbt (timeInfo ?t1) = bbt (timeInfo t)"
    "tick_advance64 ?t1 n = tick_advance64 t n"
    by (simp_all add: fillEngineTimeInfo_frame_def tick_advance64_def)
  have guard: "carla_isNotZero (sampleRate t)"
    using sr by (simp add: carla_isNotZero_def)
  have pr: "\<And>u. sampleRate u = sampleRate t \<Longrightarrow> beatsPerMinute u =
      beatsPerMinute t \<Longrightarrow>
              plain_rates u"
    using rc by (simp add: running_clock_def plain_rates_def)
  have "0 \<le> tick_advance64 t n"
    using sr bpm by (rule tick_advance64_nonneg)
  then have x0: "0 \<le> ?x" using t0 by (intro binary64_nonneg) simp
  have c64: "fillEngineTimeInfo_carry64 ?x (beatsPerBar t) (bbt (timeInfo t)) =
      Some (Inr (?x, bbt (timeInfo t)))"
    using below by (subst fillEngineTimeInfo_carry64.simps) (simp add: kTicksPerBeat_def)
  show ?thesis
    using guard n pl nr c64 x0 below rc
    by (simp add: fillEngineTimeInfo64_def Let_def same running_clock_def pr)
qed

text \<open>
  The claim as stated fails at ordinary buffer sizes. From bar 1, beat 1, tick 0 at
  48 kHz and 120 beats per minute, twenty-five calls with 960 frames add the rounded
  76.8 ticks twenty-five times and end below 1920, in beat 1; one call with the 24000
  frames adds 1920 ticks, carries once and ends in beat 2 at tick 0.
\<close>

theorem beat_of_buffers_counterexample:
  "playing (timeInfo started_transport) \<and> \<not> needsReset started_transport \<and>
   (\<exists>ts to.
      fillEngineTimeInfo_seq64 started_transport beat_of_buffers = Some (Inr ts) \<and>
      fillEngineTimeInfo64 started_transport (sum_list beat_of_buffers) = Some (Inr to) \<and>
      bbt_position ts = (1, 1, 8444249301319677 / 4398046511104) \<and>
      bbt_position to = (1, 2, 0))"
proof -
  let ?A = "5404319552844595 / 70368744177664"
  have a0: "binary64 (1843200) = 1843200"
    by (subst binary64_eval[where k = 20]) (simp_all add: round_even_def)
  have a1: "binary64 (221184000) = 221184000"
    by (subst binary64_eval[where k = 27]) (simp_all add: round_even_def)
  have a2: "binary64 (2880000) = 2880000"
    by (subst binary64_eval[where k = 21]) (simp_all add: round_even_def)
  have a3: "binary64 (384 / 5) = 5404319552844595 / 70368744177664"
    by (subst binary64_eval[where k = 6]) (simp_all add: round_even_def)
  have adv: "\<And>t. sampleRate t = 48000 \<Longrightarrow> beatsPerMinute t = 120
      \<Longrightarrow>
                  tick_advance64 t 960 = ?A"
    by (simp add: tick_advance64_def kTicksPerBeat_def a0 a1 a2 a3)
  have step: "\<And>t x y. running_clock t \<Longrightarrow> sampleRate t = 48000
      \<Longrightarrow> beatsPerMinute t = 120 \<Longrightarrow>
      tick t = x \<Longrightarrow> binary64 (x + ?A) = y \<Longrightarrow> y < 1920
          \<Longrightarrow>
      \<exists>t'. fillEngineTimeInfo64 t 960 = Some (Inr t') \<and> running_clock t' \<and>
           sampleRate t' = 48000 \<and> beatsPerMinute t' = 120 \<and>
           bar (bbt (timeInfo t')) = bar (bbt (timeInfo t)) \<and>
           beat (bbt (timeInfo t')) = beat (bbt (timeInfo t)) \<and>
           tick t' = y \<and> bbt_tick (bbt (timeInfo t')) = y"
  proof -
    fix t :: EngineInternalTime and x y :: real
    assume h: "running_clock t" "sampleRate t = 48000" "beatsPerMinute t = 120"
      "tick t = x" "binary64 (x + ?A) = y" "y < 1920"
    have "binary64 (tick t + tick_advance64 t 960) = y"
      by (simp only: h(4) adv[OF h(2,3)] h(5))
    with playing_call64_below[OF h(1), of 960] h(2,3,6)
    show "\<exists>t'. fillEngineTimeInfo64 t 960 = Some (Inr t') \<and> running_clock t' \<and>
           sampleRate t' = 48000 \<and> beatsPerMinute t' = 120 \<and>
           bar (bbt (timeInfo t')) = bar (bbt (timeInfo t)) \<and>
           beat (bbt (timeInfo t')) = beat (bbt (timeInfo t)) \<and>
           tick t' = y \<and> bbt_tick (bbt (timeInfo t')) = y"
      by auto
  qed
  have z0: "running_clock started_transport" "sampleRate started_transport = 48000"
    "beatsPerMinute started_transport = 120" "tick started_transport = 0"
    "bar (bbt (timeInfo started_transport)) = 1" "beat (bbt (timeInfo started_transport)) = 1"
    by (simp_all add: started_transport_def running_clock_def plain_rates_def)
  have s1: "binary64 (0 + ?A) = 5404319552844595 / 70368744177664"
    by (subst binary64_eval[where k = 6]) (simp_all add: round_even_def)
  have l1: "(5404319552844595 / 70368744177664 :: real) < 1920" by simp
  from step[OF z0(1) z0(2) z0(3) z0(4) s1 l1]
  obtain t1 where t1: "fillEngineTimeInfo64 started_transport 960 = Some (Inr t1)"
      "running_clock t1"
    "sampleRate t1 = 48000" "beatsPerMinute t1 = 120" "tick t1 = 5404319552844595 / 70368744177664"
    "bar (bbt (timeInfo t1)) = bar (bbt (timeInfo started_transport))"
    "beat (bbt (timeInfo t1)) = beat (bbt (timeInfo started_transport))"
    "bbt_tick (bbt (timeInfo t1)) = 5404319552844595 / 70368744177664"
    by blast
  have s2: "binary64 (5404319552844595 / 70368744177664 + ?A) = 5404319552844595 / 35184372088832"
    by (subst binary64_eval[where k = 7]) (simp_all add: round_even_def)
  have l2: "(5404319552844595 / 35184372088832 :: real) < 1920" by simp
  from step[OF t1(2) t1(3) t1(4) t1(5) s2 l2]
  obtain t2 where t2: "fillEngineTimeInfo64 t1 960 = Some (Inr t2)" "running_clock t2"
    "sampleRate t2 = 48000" "beatsPerMinute t2 = 120" "tick t2 = 5404319552844595 / 35184372088832"
    "bar (bbt (timeInfo t2)) = bar (bbt (timeInfo t1))"
    "beat (bbt (timeInfo t2)) = beat (bbt (timeInfo t1))"
    "bbt_tick (bbt (timeInfo t2)) = 5404319552844595 / 35184372088832"
    by blast
  have s3: "binary64 (5404319552844595 / 35184372088832 + ?A) = 2026619832316723 / 8796093022208"
    by (subst binary64_eval[where k = 7]) (simp_all add: round_even_def)
  have l3: "(2026619832316723 / 8796093022208 :: real) < 1920" by simp
  from step[OF t2(2) t2(3) t2(4) t2(5) s3 l3]
  obtain t3 where t3: "fillEngineTimeInfo64 t2 960 = Some (Inr t3)" "running_clock t3"
    "sampleRate t3 = 48000" "beatsPerMinute t3 = 120" "tick t3 = 2026619832316723 / 8796093022208"
    "bar (bbt (timeInfo t3)) = bar (bbt (timeInfo t2))"
    "beat (bbt (timeInfo t3)) = beat (bbt (timeInfo t2))"
    "bbt_tick (bbt (timeInfo t3)) = 2026619832316723 / 8796093022208"
    by blast
  have s4: "binary64 (2026619832316723 / 8796093022208 + ?A) = 5404319552844595 / 17592186044416"
    by (subst binary64_eval[where k = 8]) (simp_all add: round_even_def)
  have l4: "(5404319552844595 / 17592186044416 :: real) < 1920" by simp
  from step[OF t3(2) t3(3) t3(4) t3(5) s4 l4]
  obtain t4 where t4: "fillEngineTimeInfo64 t3 960 = Some (Inr t4)" "running_clock t4"
    "sampleRate t4 = 48000" "beatsPerMinute t4 = 120" "tick t4 = 5404319552844595 / 17592186044416"
    "bar (bbt (timeInfo t4)) = bar (bbt (timeInfo t3))"
    "beat (bbt (timeInfo t4)) = beat (bbt (timeInfo t3))"
    "bbt_tick (bbt (timeInfo t4)) = 5404319552844595 / 17592186044416"
    by blast
  have s5: "binary64 (5404319552844595 / 17592186044416 + ?A) = 384"
    by (subst binary64_eval[where k = 8]) (simp_all add: round_even_def)
  have l5: "(384 :: real) < 1920" by simp
  from step[OF t4(2) t4(3) t4(4) t4(5) s5 l5]
  obtain t5 where t5: "fillEngineTimeInfo64 t4 960 = Some (Inr t5)" "running_clock t5"
    "sampleRate t5 = 48000" "beatsPerMinute t5 = 120" "tick t5 = 384"
    "bar (bbt (timeInfo t5)) = bar (bbt (timeInfo t4))"
    "beat (bbt (timeInfo t5)) = beat (bbt (timeInfo t4))"
    "bbt_tick (bbt (timeInfo t5)) = 384"
    by blast
  have s6: "binary64 (384 + ?A) = 8106479329266893 / 17592186044416"
    by (subst binary64_eval[where k = 8]) (simp_all add: round_even_def)
  have l6: "(8106479329266893 / 17592186044416 :: real) < 1920" by simp
  from step[OF t5(2) t5(3) t5(4) t5(5) s6 l6]
  obtain t6 where t6: "fillEngineTimeInfo64 t5 960 = Some (Inr t6)" "running_clock t6"
    "sampleRate t6 = 48000" "beatsPerMinute t6 = 120" "tick t6 = 8106479329266893 / 17592186044416"
    "bar (bbt (timeInfo t6)) = bar (bbt (timeInfo t5))"
    "beat (bbt (timeInfo t6)) = beat (bbt (timeInfo t5))"
    "bbt_tick (bbt (timeInfo t6)) = 8106479329266893 / 17592186044416"
    by blast
  have s7: "binary64 (8106479329266893 / 17592186044416 + ?A) = 4728779608739021 / 8796093022208"
    by (subst binary64_eval[where k = 9]) (simp_all add: round_even_def)
  have l7: "(4728779608739021 / 8796093022208 :: real) < 1920" by simp
  from step[OF t6(2) t6(3) t6(4) t6(5) s7 l7]
  obtain t7 where t7: "fillEngineTimeInfo64 t6 960 = Some (Inr t7)" "running_clock t7"
    "sampleRate t7 = 48000" "beatsPerMinute t7 = 120" "tick t7 = 4728779608739021 / 8796093022208"
    "bar (bbt (timeInfo t7)) = bar (bbt (timeInfo t6))"
    "beat (bbt (timeInfo t7)) = beat (bbt (timeInfo t6))"
    "bbt_tick (bbt (timeInfo t7)) = 4728779608739021 / 8796093022208"
    by blast
  have s8: "binary64 (4728779608739021 / 8796093022208 + ?A) = 5404319552844595 / 8796093022208"
    by (subst binary64_eval[where k = 9]) (simp_all add: round_even_def)
  have l8: "(5404319552844595 / 8796093022208 :: real) < 1920" by simp
  from step[OF t7(2) t7(3) t7(4) t7(5) s8 l8]
  obtain t8 where t8: "fillEngineTimeInfo64 t7 960 = Some (Inr t8)" "running_clock t8"
    "sampleRate t8 = 48000" "beatsPerMinute t8 = 120" "tick t8 = 5404319552844595 / 8796093022208"
    "bar (bbt (timeInfo t8)) = bar (bbt (timeInfo t7))"
    "beat (bbt (timeInfo t8)) = beat (bbt (timeInfo t7))"
    "bbt_tick (bbt (timeInfo t8)) = 5404319552844595 / 8796093022208"
    by blast
  have s9: "binary64 (5404319552844595 / 8796093022208 + ?A) = 6079859496950169 / 8796093022208"
    by (subst binary64_eval[where k = 9]) (simp_all add: round_even_def)
  have l9: "(6079859496950169 / 8796093022208 :: real) < 1920" by simp
  from step[OF t8(2) t8(3) t8(4) t8(5) s9 l9]
  obtain t9 where t9: "fillEngineTimeInfo64 t8 960 = Some (Inr t9)" "running_clock t9"
    "sampleRate t9 = 48000" "beatsPerMinute t9 = 120" "tick t9 = 6079859496950169 / 8796093022208"
    "bar (bbt (timeInfo t9)) = bar (bbt (timeInfo t8))"
    "beat (bbt (timeInfo t9)) = beat (bbt (timeInfo t8))"
    "bbt_tick (bbt (timeInfo t9)) = 6079859496950169 / 8796093022208"
    by blast
  have s10: "binary64 (6079859496950169 / 8796093022208 + ?A) = 6755399441055743 / 8796093022208"
    by (subst binary64_eval[where k = 9]) (simp_all add: round_even_def)
  have l10: "(6755399441055743 / 8796093022208 :: real) < 1920" by simp
  from step[OF t9(2) t9(3) t9(4) t9(5) s10 l10]
  obtain t10 where t10: "fillEngineTimeInfo64 t9 960 = Some (Inr t10)" "running_clock t10"
    "sampleRate t10 = 48000" "beatsPerMinute t10 = 120" "tick t10 = 6755399441055743 /
        8796093022208"
    "bar (bbt (timeInfo t10)) = bar (bbt (timeInfo t9))"
    "beat (bbt (timeInfo t10)) = beat (bbt (timeInfo t9))"
    "bbt_tick (bbt (timeInfo t10)) = 6755399441055743 / 8796093022208"
    by blast
  have s11: "binary64 (6755399441055743 / 8796093022208 + ?A) = 7430939385161317 / 8796093022208"
    by (subst binary64_eval[where k = 9]) (simp_all add: round_even_def)
  have l11: "(7430939385161317 / 8796093022208 :: real) < 1920" by simp
  from step[OF t10(2) t10(3) t10(4) t10(5) s11 l11]
  obtain t11 where t11: "fillEngineTimeInfo64 t10 960 = Some (Inr t11)" "running_clock t11"
    "sampleRate t11 = 48000" "beatsPerMinute t11 = 120" "tick t11 = 7430939385161317 /
        8796093022208"
    "bar (bbt (timeInfo t11)) = bar (bbt (timeInfo t10))"
    "beat (bbt (timeInfo t11)) = beat (bbt (timeInfo t10))"
    "bbt_tick (bbt (timeInfo t11)) = 7430939385161317 / 8796093022208"
    by blast
  have s12: "binary64 (7430939385161317 / 8796093022208 + ?A) = 8106479329266891 / 8796093022208"
    by (subst binary64_eval[where k = 9]) (simp_all add: round_even_def)
  have l12: "(8106479329266891 / 8796093022208 :: real) < 1920" by simp
  from step[OF t11(2) t11(3) t11(4) t11(5) s12 l12]
  obtain t12 where t12: "fillEngineTimeInfo64 t11 960 = Some (Inr t12)" "running_clock t12"
    "sampleRate t12 = 48000" "beatsPerMinute t12 = 120" "tick t12 = 8106479329266891 /
        8796093022208"
    "bar (bbt (timeInfo t12)) = bar (bbt (timeInfo t11))"
    "beat (bbt (timeInfo t12)) = beat (bbt (timeInfo t11))"
    "bbt_tick (bbt (timeInfo t12)) = 8106479329266891 / 8796093022208"
    by blast
  have s13: "binary64 (8106479329266891 / 8796093022208 + ?A) = 8782019273372465 / 8796093022208"
    by (subst binary64_eval[where k = 9]) (simp_all add: round_even_def)
  have l13: "(8782019273372465 / 8796093022208 :: real) < 1920" by simp
  from step[OF t12(2) t12(3) t12(4) t12(5) s13 l13]
  obtain t13 where t13: "fillEngineTimeInfo64 t12 960 = Some (Inr t13)" "running_clock t13"
    "sampleRate t13 = 48000" "beatsPerMinute t13 = 120" "tick t13 = 8782019273372465 /
        8796093022208"
    "bar (bbt (timeInfo t13)) = bar (bbt (timeInfo t12))"
    "beat (bbt (timeInfo t13)) = beat (bbt (timeInfo t12))"
    "bbt_tick (bbt (timeInfo t13)) = 8782019273372465 / 8796093022208"
    by blast
  have s14: "binary64 (8782019273372465 / 8796093022208 + ?A) = 1182194902184755 / 1099511627776"
    by (subst binary64_eval[where k = 10]) (simp_all add: round_even_def)
  have l14: "(1182194902184755 / 1099511627776 :: real) < 1920" by simp
  from step[OF t13(2) t13(3) t13(4) t13(5) s14 l14]
  obtain t14 where t14: "fillEngineTimeInfo64 t13 960 = Some (Inr t14)" "running_clock t14"
    "sampleRate t14 = 48000" "beatsPerMinute t14 = 120" "tick t14 = 1182194902184755 /
        1099511627776"
    "bar (bbt (timeInfo t14)) = bar (bbt (timeInfo t13))"
    "beat (bbt (timeInfo t14)) = beat (bbt (timeInfo t13))"
    "bbt_tick (bbt (timeInfo t14)) = 1182194902184755 / 1099511627776"
    by blast
  have s15: "binary64 (1182194902184755 / 1099511627776 + ?A) = 5066549580791807 / 4398046511104"
    by (subst binary64_eval[where k = 10]) (simp_all add: round_even_def)
  have l15: "(5066549580791807 / 4398046511104 :: real) < 1920" by simp
  from step[OF t14(2) t14(3) t14(4) t14(5) s15 l15]
  obtain t15 where t15: "fillEngineTimeInfo64 t14 960 = Some (Inr t15)" "running_clock t15"
    "sampleRate t15 = 48000" "beatsPerMinute t15 = 120" "tick t15 = 5066549580791807 /
        4398046511104"
    "bar (bbt (timeInfo t15)) = bar (bbt (timeInfo t14))"
    "beat (bbt (timeInfo t15)) = beat (bbt (timeInfo t14))"
    "bbt_tick (bbt (timeInfo t15)) = 5066549580791807 / 4398046511104"
    by blast
  have s16: "binary64 (5066549580791807 / 4398046511104 + ?A) = 2702159776422297 / 2199023255552"
    by (subst binary64_eval[where k = 10]) (simp_all add: round_even_def)
  have l16: "(2702159776422297 / 2199023255552 :: real) < 1920" by simp
  from step[OF t15(2) t15(3) t15(4) t15(5) s16 l16]
  obtain t16 where t16: "fillEngineTimeInfo64 t15 960 = Some (Inr t16)" "running_clock t16"
    "sampleRate t16 = 48000" "beatsPerMinute t16 = 120" "tick t16 = 2702159776422297 /
        2199023255552"
    "bar (bbt (timeInfo t16)) = bar (bbt (timeInfo t15))"
    "beat (bbt (timeInfo t16)) = beat (bbt (timeInfo t15))"
    "bbt_tick (bbt (timeInfo t16)) = 2702159776422297 / 2199023255552"
    by blast
  have s17: "binary64 (2702159776422297 / 2199023255552 + ?A) = 5742089524897381 / 4398046511104"
    by (subst binary64_eval[where k = 10]) (simp_all add: round_even_def)
  have l17: "(5742089524897381 / 4398046511104 :: real) < 1920" by simp
  from step[OF t16(2) t16(3) t16(4) t16(5) s17 l17]
  obtain t17 where t17: "fillEngineTimeInfo64 t16 960 = Some (Inr t17)" "running_clock t17"
    "sampleRate t17 = 48000" "beatsPerMinute t17 = 120" "tick t17 = 5742089524897381 /
        4398046511104"
    "bar (bbt (timeInfo t17)) = bar (bbt (timeInfo t16))"
    "beat (bbt (timeInfo t17)) = beat (bbt (timeInfo t16))"
    "bbt_tick (bbt (timeInfo t17)) = 5742089524897381 / 4398046511104"
    by blast
  have s18: "binary64 (5742089524897381 / 4398046511104 + ?A) = 759982437118771 / 549755813888"
    by (subst binary64_eval[where k = 10]) (simp_all add: round_even_def)
  have l18: "(759982437118771 / 549755813888 :: real) < 1920" by simp
  from step[OF t17(2) t17(3) t17(4) t17(5) s18 l18]
  obtain t18 where t18: "fillEngineTimeInfo64 t17 960 = Some (Inr t18)" "running_clock t18"
    "sampleRate t18 = 48000" "beatsPerMinute t18 = 120" "tick t18 = 759982437118771 / 549755813888"
    "bar (bbt (timeInfo t18)) = bar (bbt (timeInfo t17))"
    "beat (bbt (timeInfo t18)) = beat (bbt (timeInfo t17))"
    "bbt_tick (bbt (timeInfo t18)) = 759982437118771 / 549755813888"
    by blast
  have s19: "binary64 (759982437118771 / 549755813888 + ?A) = 6417629469002955 / 4398046511104"
    by (subst binary64_eval[where k = 10]) (simp_all add: round_even_def)
  have l19: "(6417629469002955 / 4398046511104 :: real) < 1920" by simp
  from step[OF t18(2) t18(3) t18(4) t18(5) s19 l19]
  obtain t19 where t19: "fillEngineTimeInfo64 t18 960 = Some (Inr t19)" "running_clock t19"
    "sampleRate t19 = 48000" "beatsPerMinute t19 = 120" "tick t19 = 6417629469002955 /
        4398046511104"
    "bar (bbt (timeInfo t19)) = bar (bbt (timeInfo t18))"
    "beat (bbt (timeInfo t19)) = beat (bbt (timeInfo t18))"
    "bbt_tick (bbt (timeInfo t19)) = 6417629469002955 / 4398046511104"
    by blast
  have s20: "binary64 (6417629469002955 / 4398046511104 + ?A) = 3377699720527871 / 2199023255552"
    by (subst binary64_eval[where k = 10]) (simp_all add: round_even_def)
  have l20: "(3377699720527871 / 2199023255552 :: real) < 1920" by simp
  from step[OF t19(2) t19(3) t19(4) t19(5) s20 l20]
  obtain t20 where t20: "fillEngineTimeInfo64 t19 960 = Some (Inr t20)" "running_clock t20"
    "sampleRate t20 = 48000" "beatsPerMinute t20 = 120" "tick t20 = 3377699720527871 /
        2199023255552"
    "bar (bbt (timeInfo t20)) = bar (bbt (timeInfo t19))"
    "beat (bbt (timeInfo t20)) = beat (bbt (timeInfo t19))"
    "bbt_tick (bbt (timeInfo t20)) = 3377699720527871 / 2199023255552"
    by blast
  have s21: "binary64 (3377699720527871 / 2199023255552 + ?A) = 7093169413108529 / 4398046511104"
    by (subst binary64_eval[where k = 10]) (simp_all add: round_even_def)
  have l21: "(7093169413108529 / 4398046511104 :: real) < 1920" by simp
  from step[OF t20(2) t20(3) t20(4) t20(5) s21 l21]
  obtain t21 where t21: "fillEngineTimeInfo64 t20 960 = Some (Inr t21)" "running_clock t21"
    "sampleRate t21 = 48000" "beatsPerMinute t21 = 120" "tick t21 = 7093169413108529 /
        4398046511104"
    "bar (bbt (timeInfo t21)) = bar (bbt (timeInfo t20))"
    "beat (bbt (timeInfo t21)) = beat (bbt (timeInfo t20))"
    "bbt_tick (bbt (timeInfo t21)) = 7093169413108529 / 4398046511104"
    by blast
  have s22: "binary64 (7093169413108529 / 4398046511104 + ?A) = 1857734846290329 / 1099511627776"
    by (subst binary64_eval[where k = 10]) (simp_all add: round_even_def)
  have l22: "(1857734846290329 / 1099511627776 :: real) < 1920" by simp
  from step[OF t21(2) t21(3) t21(4) t21(5) s22 l22]
  obtain t22 where t22: "fillEngineTimeInfo64 t21 960 = Some (Inr t22)" "running_clock t22"
    "sampleRate t22 = 48000" "beatsPerMinute t22 = 120" "tick t22 = 1857734846290329 /
        1099511627776"
    "bar (bbt (timeInfo t22)) = bar (bbt (timeInfo t21))"
    "beat (bbt (timeInfo t22)) = beat (bbt (timeInfo t21))"
    "bbt_tick (bbt (timeInfo t22)) = 1857734846290329 / 1099511627776"
    by blast
  have s23: "binary64 (1857734846290329 / 1099511627776 + ?A) = 7768709357214103 / 4398046511104"
    by (subst binary64_eval[where k = 10]) (simp_all add: round_even_def)
  have l23: "(7768709357214103 / 4398046511104 :: real) < 1920" by simp
  from step[OF t22(2) t22(3) t22(4) t22(5) s23 l23]
  obtain t23 where t23: "fillEngineTimeInfo64 t22 960 = Some (Inr t23)" "running_clock t23"
    "sampleRate t23 = 48000" "beatsPerMinute t23 = 120" "tick t23 = 7768709357214103 /
        4398046511104"
    "bar (bbt (timeInfo t23)) = bar (bbt (timeInfo t22))"
    "beat (bbt (timeInfo t23)) = beat (bbt (timeInfo t22))"
    "bbt_tick (bbt (timeInfo t23)) = 7768709357214103 / 4398046511104"
    by blast
  have s24: "binary64 (7768709357214103 / 4398046511104 + ?A) = 4053239664633445 / 2199023255552"
    by (subst binary64_eval[where k = 10]) (simp_all add: round_even_def)
  have l24: "(4053239664633445 / 2199023255552 :: real) < 1920" by simp
  from step[OF t23(2) t23(3) t23(4) t23(5) s24 l24]
  obtain t24 where t24: "fillEngineTimeInfo64 t23 960 = Some (Inr t24)" "running_clock t24"
    "sampleRate t24 = 48000" "beatsPerMinute t24 = 120" "tick t24 = 4053239664633445 /
        2199023255552"
    "bar (bbt (timeInfo t24)) = bar (bbt (timeInfo t23))"
    "beat (bbt (timeInfo t24)) = beat (bbt (timeInfo t23))"
    "bbt_tick (bbt (timeInfo t24)) = 4053239664633445 / 2199023255552"
    by blast
  have s25: "binary64 (4053239664633445 / 2199023255552 + ?A) = 8444249301319677 / 4398046511104"
    by (subst binary64_eval[where k = 10]) (simp_all add: round_even_def)
  have l25: "(8444249301319677 / 4398046511104 :: real) < 1920" by simp
  from step[OF t24(2) t24(3) t24(4) t24(5) s25 l25]
  obtain t25 where t25: "fillEngineTimeInfo64 t24 960 = Some (Inr t25)" "running_clock t25"
    "sampleRate t25 = 48000" "beatsPerMinute t25 = 120" "tick t25 = 8444249301319677 /
        4398046511104"
    "bar (bbt (timeInfo t25)) = bar (bbt (timeInfo t24))"
    "beat (bbt (timeInfo t25)) = beat (bbt (timeInfo t24))"
    "bbt_tick (bbt (timeInfo t25)) = 8444249301319677 / 4398046511104"
    by blast
  have o0: "binary64 (46080000) = 46080000"
    by (subst binary64_eval[where k = 25]) (simp_all add: round_even_def)
  have o1: "binary64 (5529600000) = 5529600000"
    by (subst binary64_eval[where k = 32]) (simp_all add: round_even_def)
  have o2: "binary64 (2880000) = 2880000"
    by (subst binary64_eval[where k = 21]) (simp_all add: round_even_def)
  have o3: "binary64 (1920) = 1920"
    by (subst binary64_eval[where k = 10]) (simp_all add: round_even_def)
  have seq: "fillEngineTimeInfo_seq64 started_transport beat_of_buffers = Some (Inr t25)"
    by (simp add: beat_of_buffers_def t1(1) t2(1) t3(1) t4(1) t5(1) t6(1) t7(1) t8(1) t9(1)
        t10(1) t11(1) t12(1) t13(1) t14(1) t15(1) t16(1) t17(1) t18(1) t19(1) t20(1) t21(1)
        t22(1) t23(1) t24(1) t25(1))
  have "bar (bbt (timeInfo t25)) = 1"
    by (simp only: t1(6) t2(6) t3(6) t4(6) t5(6) t6(6) t7(6) t8(6) t9(6) t10(6) t11(6) t12(6)
        t13(6) t14(6) t15(6) t16(6) t17(6) t18(6) t19(6) t20(6) t21(6) t22(6) t23(6) t24(6)
        t25(6) z0(5))
  moreover have "beat (bbt (timeInfo t25)) = 1"
    by (simp only: t1(7) t2(7) t3(7) t4(7) t5(7) t6(7) t7(7) t8(7) t9(7) t10(7) t11(7) t12(7)
        t13(7) t14(7) t15(7) t16(7) t17(7) t18(7) t19(7) t20(7) t21(7) t22(7) t23(7) t24(7)
        t25(7) z0(6))
  ultimately have p25: "bbt_position t25 = (1, 1, 8444249301319677 / 4398046511104)"
    using t25(8) by (simp add: bbt_position_def)
  have o: "binary64 (1920 :: real) = 1920"
    by (subst binary64_eval[where k = 10]) (simp_all add: round_even_def)
  have one: "\<exists>to. fillEngineTimeInfo64 started_transport (sum_list beat_of_buffers) =
      Some (Inr to) \<and>
                bbt_position to = (1, 2, 0)"
    by (simp add: beat_of_buffers_def started_transport_def fillEngineTimeInfo64_def
        fillEngineTimeInfo_frame_def carla_isNotZero_def tick_advance64_def Let_def
        kTicksPerBeat_def o0 o1 o2 o3 o
        fillEngineTimeInfo_carry64.simps[of 1920] fillEngineTimeInfo_carry64.simps[of 0]
        int32_add_def int32_range_def bbt_position_def)
  show ?thesis
    using seq p25 one by (simp add: started_transport_def)
qed

end
